theory Spec2Isabelle
  imports Complex_Main "HOL-Library.Char_ord" "HOL-Library.List_Lexorder"
begin

section \<open>Batch MTF evaluation: a model of \<open>batch_process.py\<close>\<close>

text \<open>
  The script discovers image files below a directory, lets the operator pick one
  region of interest on the first image, and evaluates the MTF of every image on
  that region. The three calls into the \<open>mtf\<close> module, the directory tree that
  \<open>glob\<close> walks and the events of the matplotlib window are inputs of the model.
  Python floats are the rationals they denote when finite; paths are POSIX paths.
\<close>

subsection \<open>Paths and the directory tree\<close>

text \<open>
  A directory is the list of its entries as \<open>os.scandir\<close> reports them. A root that
  does not exist, or is not a directory, is \<open>File\<close>: \<open>glob\<close> finds nothing below
  either.
\<close>

datatype node = File | Dir "(string \<times> node) list"

definition os_sep :: char where
  "os_sep = CHR ''/''"

text \<open>\<open>posixpath.join\<close> of two parts; \<open>os.path.join(a, b, c)\<close> is the join of
  \<open>os.path.join(a, b)\<close> and \<open>c\<close>.\<close>

definition os_path_join :: "string \<Rightarrow> string \<Rightarrow> string" where
  "os_path_join a b =
     (if b \<noteq> [] \<and> hd b = os_sep then b
      else if a = [] \<or> last a = os_sep then a @ b
      else a @ [os_sep] @ b)"

text \<open>\<open>posixpath.split\<close>: the tail is what follows the last separator; the head
  loses its trailing separators unless it consists of separators only.\<close>

definition os_path_split :: "string \<Rightarrow> string \<times> string" where
  "os_path_split p =
     (let tail = rev (takeWhile (\<lambda>c. c \<noteq> os_sep) (rev p));
          head = take (length p - length tail) p
      in (if head \<noteq> [] \<and> \<not> (\<forall>c \<in> set head. c = os_sep)
          then rev (dropWhile (\<lambda>c. c = os_sep) (rev head)) else head,
          tail))"

text \<open>\<open>str.split(sep)\<close> for a one-character separator: one more segment than there
  are separators.\<close>

fun str_split :: "char \<Rightarrow> string \<Rightarrow> string list" where
  "str_split sep [] = [[]]"
| "str_split sep (c # cs) =
     (if c = sep then [] # str_split sep cs
      else (case str_split sep cs of
              [] \<Rightarrow> [[c]]
            | w # ws \<Rightarrow> (c # w) # ws))"

subsection \<open>\<open>fnmatch\<close> and recursive \<open>glob\<close>\<close>

text \<open>
  The shell patterns of \<open>fnmatch\<close>, for the fragment the script uses: \<open>*\<close>, \<open>?\<close>, a
  bracketed set of plain characters, and literal characters. On POSIX the match
  is case-sensitive. An unclosed bracket is a literal bracket.
\<close>

datatype glob_tok = Star | QMark | OneOf "char list" | Lit char

fun translate :: "char list option \<Rightarrow> string \<Rightarrow> glob_tok list" where
  "translate None [] = []"
| "translate None (c # cs) =
     (if c = CHR ''*'' then Star # translate None cs
      else if c = CHR ''?'' then QMark # translate None cs
      else if c = CHR ''['' then translate (Some []) cs
      else Lit c # translate None cs)"
| "translate (Some acc) [] = Lit (CHR ''['') # map Lit acc"
| "translate (Some acc) (c # cs) =
     (if c = CHR '']'' \<and> acc \<noteq> [] then OneOf acc # translate None cs
      else translate (Some (acc @ [c])) cs)"

fun tok_match :: "glob_tok list \<Rightarrow> string \<Rightarrow> bool" where
  "tok_match [] s = (s = [])"
| "tok_match (Star # ps) [] = tok_match ps []"
| "tok_match (Star # ps) (c # cs) = (tok_match ps (c # cs) \<or> tok_match (Star # ps) cs)"
| "tok_match (QMark # ps) [] = False"
| "tok_match (QMark # ps) (c # cs) = tok_match ps cs"
| "tok_match (OneOf cl # ps) [] = False"
| "tok_match (OneOf cl # ps) (c # cs) = (c \<in> set cl \<and> tok_match ps cs)"
| "tok_match (Lit a # ps) [] = False"
| "tok_match (Lit a # ps) (c # cs) = (c = a \<and> tok_match ps cs)"

definition fnmatch :: "string \<Rightarrow> string \<Rightarrow> bool" where
  "fnmatch name pat = tok_match (translate None pat) name"

text \<open>\<open>glob._ishidden\<close>: the name starts with a dot.\<close>

definition ishidden :: "string \<Rightarrow> bool" where
  "ishidden name = (name \<noteq> [] \<and> hd name = CHR ''.'')"

fun isdir :: "node \<Rightarrow> bool" where
  "isdir File = False"
| "isdir (Dir es) = True"

text \<open>
  \<open>glob._rlistdir\<close> with \<open>dironly\<close>: every directory below the given one that is
  reached through names that are not hidden, in the order of the walk, under its
  path relative to the start. The node travels with the path, where Python would
  list the path again.
\<close>

fun rlistdir :: "node \<Rightarrow> (string \<times> node) list" where
  "rlistdir File = []"
| "rlistdir (Dir es) =
     concat (map (\<lambda>(x, n). if ishidden x \<or> \<not> isdir n then []
                            else (x, n) # map (\<lambda>(y, m). (os_path_join x y, m)) (rlistdir n)) es)"

text \<open>\<open>glob._glob2\<close> for the pattern \<open>**\<close>: the empty path for the directory itself,
  then the directories below it.\<close>

definition glob2 :: "node \<Rightarrow> (string \<times> node) list" where
  "glob2 d = (if isdir d then ([], d) # rlistdir d else [])"

text \<open>\<open>glob._glob1\<close>: the names of a directory that match the pattern; hidden names
  are left out because the pattern does not start with a dot.\<close>

fun listdir :: "node \<Rightarrow> string list" where
  "listdir File = []"
| "listdir (Dir es) = map fst es"

definition glob1 :: "node \<Rightarrow> string \<Rightarrow> string list" where
  "glob1 d pattern =
     filter (\<lambda>x. fnmatch x pattern)
       (if ishidden pattern then listdir d else filter (\<lambda>x. \<not> ishidden x) (listdir d))"

text \<open>\<open>glob.has_magic\<close>: one of the characters \<open>*\<close>, \<open>?\<close>, \<open>[\<close> occurs.\<close>

definition has_magic :: "string \<Rightarrow> bool" where
  "has_magic s = (CHR ''*'' \<in> set s \<or> CHR ''?'' \<in> set s \<or> CHR ''['' \<in> set s)"

text \<open>
  \<open>glob.glob(pathname, recursive=True)\<close> for a pathname of the shape
  \<open>head/**/pattern\<close>, where \<open>fs\<close> is the tree found at \<open>head\<close>. The script passes
  \<open>directory_path\<close> on as it is, and \<open>glob\<close> reads pattern characters in the head
  as patterns as well: it then walks the directories that the head matches, not
  the one it names. Here the head is read as a name, which is what \<open>glob\<close> does
  with a head that \<open>has_magic\<close> rejects; what is proved about the paths that are
  discovered below a root assumes such a root. A pathname of another shape is
  outside the model and finds nothing.
\<close>

definition glob_glob :: "node \<Rightarrow> string \<Rightarrow> string list" where
  "glob_glob fs pathname =
     (let (dirname, basename) = os_path_split pathname;
          (head, rec) = os_path_split dirname;
          dirs = (if rec \<noteq> ''**'' then []
                  else if head = [] then glob2 fs
                  else map (\<lambda>(d, n). (os_path_join head d, n)) (glob2 fs))
      in concat (map (\<lambda>(d, n). map (os_path_join d) (glob1 n basename)) dirs))"

subsection \<open>Discovery: the first lines of \<open>batch_process\<close>\<close>

definition file_pattern :: "string \<Rightarrow> string" where
  "file_pattern directory_path =
     os_path_join (os_path_join directory_path ''**'') ''*.[jp][pn]g''"

definition jpeg_pattern :: "string \<Rightarrow> string" where
  "jpeg_pattern directory_path =
     os_path_join (os_path_join directory_path ''**'') ''*.jpeg''"

text \<open>The sorted concatenation of the two scans (line 130).\<close>

definition scanned_paths :: "node \<Rightarrow> string \<Rightarrow> string list" where
  "scanned_paths fs directory_path =
     sort (glob_glob fs (file_pattern directory_path) @ glob_glob fs (jpeg_pattern directory_path))"

text \<open>The difference of segment counts that line 133 compares with 4; Python
  integers, so the difference may be negative.\<close>

definition depth_of :: "string \<Rightarrow> string \<Rightarrow> int" where
  "depth_of directory_path path =
     int (length (str_split os_sep path)) - int (length (str_split os_sep directory_path))"

definition image_paths :: "node \<Rightarrow> string \<Rightarrow> string list" where
  "image_paths fs directory_path =
     filter (\<lambda>path. depth_of directory_path path \<le> 4) (scanned_paths fs directory_path)"

subsection \<open>The \<open>mtf\<close> module and what the run leaves behind\<close>

text \<open>
  The module \<open>mtf\<close> is a parameter: three functions that return a value or raise.
  What they raise is an instance of \<open>Exception\<close>: a \<open>ValueError\<close> with its message,
  or any other exception class, named. A decoded image is a list of rows.
\<close>

datatype exn = ValueError string | Exception string

type_synonym array2d = "rat list list"

type_synonym roi_t = "int \<times> int \<times> int \<times> int"

record 'c mtf =
  LoadImageAsArray :: "string \<Rightarrow> exn + array2d"
  CalculateMtf :: "array2d \<Rightarrow> exn + 'c"
  GetMtfValue :: "'c \<Rightarrow> rat \<Rightarrow> exn + rat"

text \<open>The calls that leave the script, in the order they are made.\<close>

datatype 'c call =
    Call_LoadImageAsArray string
  | Call_CalculateMtf array2d
  | Call_GetMtfValue 'c rat
  | Call_show

text \<open>
  The printed lines, by their format string and arguments:
  \<open>No ROI selected yet.\<close>, \<open>ROI selected: {roi}\<close>, and
  \<open>MTF value for {path} at frequency {frequency:.3f}: {100 * mtf_value:.1f}%\<close>.
\<close>

datatype line =
    No_ROI_selected_yet
  | ROI_selected roi_t
  | MTF_value string rat rat

subsection \<open>\<open>ROISelector\<close>\<close>

text \<open>
  The object's fields, the view limits of its axes, whether its figure is still
  open, and the lines it has printed. \<open>rect_selector\<close> tells whether the
  \<open>RectangleSelector\<close> has been created.
\<close>

record ROISelector =
  roi :: "roi_t option"
  rect_selector :: bool
  original_xlim :: "(rat \<times> rat) option"
  original_ylim :: "(rat \<times> rat) option"
  selecting_roi :: bool
  ax_xlim :: "rat \<times> rat"
  ax_ylim :: "rat \<times> rat"
  fig_open :: bool
  printed :: "line list"

definition ROISelector_init :: ROISelector where
  "ROISelector_init =
     \<lparr>roi = None, rect_selector = False, original_xlim = None, original_ylim = None,
      selecting_roi = False, ax_xlim = (0, 1), ax_ylim = (0, 1), fig_open = True,
      printed = []\<rparr>"

text \<open>\<open>int(x)\<close> of a finite float: truncation towards zero.\<close>

definition py_int :: "rat \<Rightarrow> int" where
  "py_int x = (if 0 \<le> x then \<lfloor>x\<rfloor> else \<lceil>x\<rceil>)"

definition on_select :: "ROISelector \<Rightarrow> rat \<times> rat \<Rightarrow> rat \<times> rat \<Rightarrow> ROISelector" where
  "on_select self eclick erelease =
     (if selecting_roi self
      then self\<lparr>roi := Some (py_int (fst eclick), py_int (snd eclick),
                              py_int (fst erelease), py_int (snd erelease))\<rparr>
      else self)"

definition confirm_roi :: "ROISelector \<Rightarrow> ROISelector" where
  "confirm_roi self =
     (case roi self of
        None \<Rightarrow> self\<lparr>printed := printed self @ [No_ROI_selected_yet]\<rparr>
      | Some r \<Rightarrow> self\<lparr>printed := printed self @ [ROI_selected r], fig_open := False\<rparr>)"

text \<open>\<open>set_aspect\<close> with \<open>adjustable='box'\<close> and the redraw leave the limits as set.\<close>

definition reset_zoom :: "ROISelector \<Rightarrow> ROISelector" where
  "reset_zoom self =
     (case (original_xlim self, original_ylim self) of
        (Some xl, Some yl) \<Rightarrow> self\<lparr>ax_xlim := xl, ax_ylim := yl\<rparr>
      | _ \<Rightarrow> self)"

text \<open>
  What the window delivers while \<open>plt.show()\<close> runs: a completed drag of the
  rectangle selector with its press and release positions, a click on either
  button, a pan or zoom of the toolbar to new limits, and the closing of the
  window by the operator.
\<close>

datatype event =
    Drag "rat \<times> rat" "rat \<times> rat"
  | Click_Confirm
  | Click_Reset_Zoom
  | Pan_Zoom "rat \<times> rat" "rat \<times> rat"
  | Close_Window

fun dispatch :: "event \<Rightarrow> ROISelector \<Rightarrow> ROISelector" where
  "dispatch (Drag eclick erelease) self =
     (if rect_selector self then on_select self eclick erelease else self)"
| "dispatch Click_Confirm self = confirm_roi self"
| "dispatch Click_Reset_Zoom self = reset_zoom self"
| "dispatch (Pan_Zoom xl yl) self = self\<lparr>ax_xlim := xl, ax_ylim := yl\<rparr>"
| "dispatch Close_Window self = self\<lparr>fig_open := False\<rparr>"

text \<open>
  \<open>plt.show()\<close> returns when the figure is closed. When the events run out with
  the figure open, it waits for ever: the value \<open>None\<close>.
\<close>

fun plt_show :: "event list \<Rightarrow> ROISelector \<Rightarrow> ROISelector option" where
  "plt_show [] self = (if fig_open self then None else Some self)"
| "plt_show (e # es) self = (if fig_open self then plt_show es (dispatch e self) else Some self)"

text \<open>The events that \<open>plt.show()\<close> delivers before it returns.\<close>

fun delivered :: "event list \<Rightarrow> ROISelector \<Rightarrow> event list" where
  "delivered [] self = []"
| "delivered (e # es) self = (if fig_open self then e # delivered es (dispatch e self) else [])"

text \<open>\<open>imshow\<close> of an array of \<open>h\<close> rows and \<open>w\<close> columns sets the limits to the
  extent of the image, the vertical axis pointing down.\<close>

definition imshow_xlim :: "array2d \<Rightarrow> rat \<times> rat" where
  "imshow_xlim imgArr = (- 1 / 2, of_nat (case imgArr of [] \<Rightarrow> 0 | r # _ \<Rightarrow> length r) - 1 / 2)"

definition imshow_ylim :: "array2d \<Rightarrow> rat \<times> rat" where
  "imshow_ylim imgArr = (of_nat (length imgArr) - 1 / 2, - 1 / 2)"

definition No_ROI_selected :: exn where
  "No_ROI_selected = ValueError ''No ROI selected. Please select a valid area.''"

text \<open>The part of \<open>select_roi\<close> before \<open>plt.show()\<close>: the image is drawn, its
  limits are stored, the rectangle selector is created and armed.\<close>

definition arm :: "array2d \<Rightarrow> ROISelector \<Rightarrow> ROISelector" where
  "arm imgArr self =
     self\<lparr>ax_xlim := imshow_xlim imgArr, ax_ylim := imshow_ylim imgArr,
          original_xlim := Some (imshow_xlim imgArr), original_ylim := Some (imshow_ylim imgArr),
          rect_selector := True, selecting_roi := True\<rparr>"

definition select_roi :: "event list \<Rightarrow> array2d \<Rightarrow> ROISelector \<Rightarrow> ((exn + roi_t) \<times> ROISelector) option" where
  "select_roi evs imgArr self =
     (case plt_show evs (arm imgArr self) of
        None \<Rightarrow> None
      | Some self' \<Rightarrow>
          let self'' = self'\<lparr>selecting_roi := False\<rparr>
          in Some (case roi self'' of None \<Rightarrow> Inl No_ROI_selected | Some r \<Rightarrow> Inr r, self''))"

text \<open>\<open>get_roi\<close>: the result, the calls made and the lines printed; \<open>None\<close> when
  \<open>plt.show()\<close> never returns.\<close>

definition get_roi ::
  "'c mtf \<Rightarrow> event list \<Rightarrow> string \<Rightarrow> ((exn + roi_t) \<times> 'c call list \<times> line list) option" where
  "get_roi m evs image_path =
     (case LoadImageAsArray m image_path of
        Inl e \<Rightarrow> Some (Inl e, [Call_LoadImageAsArray image_path], [])
      | Inr imgArr \<Rightarrow>
          (case select_roi evs imgArr ROISelector_init of
             None \<Rightarrow> None
           | Some (r, self) \<Rightarrow>
               Some (r, [Call_LoadImageAsArray image_path, Call_show], printed self)))"

subsection \<open>\<open>process_image\<close>\<close>

text \<open>A numpy slice \<open>a:b\<close> of an axis of length \<open>n\<close>: a negative bound counts from
  the end, and both bounds are clamped to the axis.\<close>

definition slice_index :: "nat \<Rightarrow> int \<Rightarrow> nat" where
  "slice_index n i =
     (if i < 0 then (if i + int n < 0 then 0 else nat (i + int n))
      else if int n < i then n else nat i)"

definition py_slice :: "'a list \<Rightarrow> int \<Rightarrow> int \<Rightarrow> 'a list" where
  "py_slice xs a b =
     (let lo = slice_index (length xs) a; hi = slice_index (length xs) b
      in take (hi - lo) (drop lo xs))"

text \<open>\<open>imgArr[y1:y2, x1:x2]\<close> and \<open>imgArr.size\<close>.\<close>

definition crop :: "array2d \<Rightarrow> int \<Rightarrow> int \<Rightarrow> int \<Rightarrow> int \<Rightarrow> array2d" where
  "crop imgArr y1 y2 x1 x2 = map (\<lambda>row. py_slice row x1 x2) (py_slice imgArr y1 y2)"

definition array_size :: "array2d \<Rightarrow> nat" where
  "array_size imgArr = sum_list (map length imgArr)"

text \<open>The result is \<open>Inl\<close> when \<open>process_image\<close> raises, and \<open>Inr\<close> of what it
  returns, \<open>None\<close> or a value, otherwise.\<close>

definition process_image ::
  "'c mtf \<Rightarrow> string \<Rightarrow> rat \<Rightarrow> roi_t option \<Rightarrow> (exn + rat option) \<times> 'c call list" where
  "process_image m image_path frequency roi' =
     (case LoadImageAsArray m image_path of
        Inl e \<Rightarrow> (Inl e, [Call_LoadImageAsArray image_path])
      | Inr loaded \<Rightarrow>
          let imgArr = (case roi' of
                          None \<Rightarrow> loaded
                        | Some (x1, y1, x2, y2) \<Rightarrow> crop loaded y1 y2 x1 x2)
          in if array_size imgArr = 0
             then (Inr None, [Call_LoadImageAsArray image_path])
             else (case CalculateMtf m imgArr of
                     Inl e \<Rightarrow>
                       (Inr None, [Call_LoadImageAsArray image_path, Call_CalculateMtf imgArr])
                   | Inr res \<Rightarrow>
                       (case GetMtfValue m res frequency of
                          Inl e \<Rightarrow>
                            (Inr None, [Call_LoadImageAsArray image_path, Call_CalculateMtf imgArr,
                                        Call_GetMtfValue res frequency])
                        | Inr mtf_value \<Rightarrow>
                            (Inr (Some mtf_value),
                             [Call_LoadImageAsArray image_path, Call_CalculateMtf imgArr,
                              Call_GetMtfValue res frequency]))))"

subsection \<open>\<open>batch_process\<close>\<close>

text \<open>A Python dict keeps its keys in the order of their first insertion; storing
  under a key that is present replaces the value where it stands.\<close>

fun dict_set :: "('k \<times> 'v) list \<Rightarrow> 'k \<Rightarrow> 'v \<Rightarrow> ('k \<times> 'v) list" where
  "dict_set [] k v = [(k, v)]"
| "dict_set ((k', v') # kvs) k v =
     (if k' = k then (k, v) # kvs else (k', v') # dict_set kvs k v)"

text \<open>The \<open>for\<close> loop over the paths that are left, on the dict, the calls and the
  printed lines so far. An exception of \<open>process_image\<close> is caught and passed
  over.\<close>

fun batch_loop ::
  "'c mtf \<Rightarrow> rat \<Rightarrow> roi_t \<Rightarrow> string list \<Rightarrow>
   (string \<times> rat) list \<times> 'c call list \<times> line list \<Rightarrow>
   (string \<times> rat) list \<times> 'c call list \<times> line list" where
  "batch_loop m frequency roi' [] st = st"
| "batch_loop m frequency roi' (path # paths) (results, calls, out) =
     (case process_image m path frequency (Some roi') of
        (Inl e, cs) \<Rightarrow> batch_loop m frequency roi' paths (results, calls @ cs, out)
      | (Inr None, cs) \<Rightarrow> batch_loop m frequency roi' paths (results, calls @ cs, out)
      | (Inr (Some mtf_value), cs) \<Rightarrow>
          batch_loop m frequency roi' paths
            (dict_set results path mtf_value, calls @ cs,
             out @ [MTF_value path frequency (100 * mtf_value)]))"

definition No_images_found :: exn where
  "No_images_found = ValueError ''No images found in the specified directory.''"

text \<open>The run on a tree \<open>fs\<close> found at \<open>directory_path\<close>, with the events \<open>evs\<close> of
  the operator: what is raised or returned, the calls made and the lines
  printed; \<open>None\<close> when the window is never closed.\<close>

definition batch_process ::
  "'c mtf \<Rightarrow> node \<Rightarrow> event list \<Rightarrow> string \<Rightarrow> rat \<Rightarrow>
   ((exn + (string \<times> rat) list) \<times> 'c call list \<times> line list) option" where
  "batch_process m fs evs directory_path frequency =
     (let paths = image_paths fs directory_path
      in if paths = [] then Some (Inl No_images_found, [], [])
         else (case get_roi m evs (hd paths) of
                 None \<Rightarrow> None
               | Some (Inl e, calls, out) \<Rightarrow> Some (Inl e, calls, out)
               | Some (Inr roi', calls, out) \<Rightarrow>
                   (case batch_loop m frequency roi' paths ([], calls, out) of
                      (results, calls', out') \<Rightarrow> Some (Inr results, calls', out'))))"

subsection \<open>Inputs for the examples\<close>

text \<open>An engine that cannot decode one of the files, finds no edge in an image
  of fewer than two rows, and has no value above the frequency 1.\<close>

definition demo_mtf :: "nat mtf" where
  "demo_mtf =
     \<lparr>LoadImageAsArray = (\<lambda>p. if p = ''root/broken.png'' then Inl (Exception ''UnidentifiedImageError'')
                              else Inr [[0, 1 / 2, 1], [0, 1 / 2, 1]]),
      CalculateMtf = (\<lambda>a. if length a < 2 then Inl (Exception ''EdgeNotFound'') else Inr (length a)),
      GetMtfValue = (\<lambda>c f. if 1 < f then Inl (ValueError ''frequency'') else Inr (1 - f))\<rparr>"

text \<open>The selector after a drag from (0.25, 0.5) to (1.25, 1.5) and a zoom, on
  an image of two rows and two columns.\<close>

definition dragged_and_zoomed :: ROISelector where
  "dragged_and_zoomed =
     \<lparr>roi = Some (0, 0, 1, 1), rect_selector = True,
      original_xlim = Some (- 1 / 2, 3 / 2), original_ylim = Some (3 / 2, - 1 / 2),
      selecting_roi = True, ax_xlim = (0, 1), ax_ylim = (1, 0), fig_open = True,
      printed = []\<rparr>"

subsection \<open>Auxiliary notions\<close>

text \<open>A completed drag among the events.\<close>

fun is_drag :: "event \<Rightarrow> bool" where
  "is_drag (Drag eclick erelease) = True"
| "is_drag e = False"

text \<open>The selector is armed while \<open>plt.show()\<close> runs.\<close>

definition armed :: "ROISelector \<Rightarrow> bool" where
  "armed self = (rect_selector self \<and> selecting_roi self)"

text \<open>The tree of the end-to-end scenario, and a tree without images.\<close>

definition spec_tree :: node where
  "spec_tree =
     Dir [(''a'', Dir [(''img1.png'', File),
                       (''readme.txt'', File),
                       (''b'', Dir [(''img2.jpg'', File),
                                    (''c'', Dir [(''d'', Dir [(''e'', Dir [(''img3.png'', File)])])])])])]"

definition text_only_tree :: node where
  "text_only_tree = Dir [(''readme.txt'', File), (''deep'', Dir [(''notes.md'', File)])]"

subsection \<open>The tree as glob sees it\<close>

text \<open>The trees a file system can hold: the names of a directory differ, and a
  name is not empty and holds no separator.\<close>

fun wf_node :: "node \<Rightarrow> bool" where
  "wf_node File = True"
| "wf_node (Dir es) =
     (distinct (map fst es) \<and> (\<forall>(x, n) \<in> set es. x \<noteq> [] \<and> os_sep \<notin> set x \<and> wf_node n))"

text \<open>The matches of a pattern below a directory, under their paths relative to
  it, in the order in which \<open>glob\<close> reports them.\<close>

definition rel_matches :: "string \<Rightarrow> node \<Rightarrow> string list" where
  "rel_matches pattern d =
     concat (map (\<lambda>(rel, n). map (os_path_join rel) (glob1 n pattern)) (glob2 d))"

text \<open>Every entry below a directory, files and directories at any depth, under
  the list of the names that lead to it.\<close>

fun entries_below :: "node \<Rightarrow> (string list \<times> node) list" where
  "entries_below File = []"
| "entries_below (Dir es) =
     concat (map (\<lambda>(x, n). ([x], n) # map (\<lambda>(cs, m). (x # cs, m)) (entries_below n)) es)"

text \<open>The names joined into a relative path.\<close>

fun rel_path :: "string list \<Rightarrow> string" where
  "rel_path [] = []"
| "rel_path [x] = x"
| "rel_path (x # y # cs) = os_path_join x (rel_path (y # cs))"

text \<open>An entry is found by a pattern when no name on its way is hidden and its
  own name matches.\<close>

definition found_by :: "string \<Rightarrow> string list \<Rightarrow> bool" where
  "found_by pattern cs = ((\<forall>c \<in> set cs. \<not> ishidden c) \<and> fnmatch (last cs) pattern)"

text \<open>The name under which \<open>glob\<close> reports the root, and under which an entry:
  \<open>os.path.join\<close> of the root and the names.\<close>

definition glob_head :: "string \<Rightarrow> string" where
  "glob_head directory_path = fst (os_path_split (os_path_join directory_path ''**''))"

definition path_of :: "string \<Rightarrow> string list \<Rightarrow> string" where
  "path_of directory_path cs = foldl os_path_join (glob_head directory_path) cs"

text \<open>\<open>str.endswith\<close>, and the three extensions that the comment on line 125
  names.\<close>

definition endswith :: "string \<Rightarrow> string \<Rightarrow> bool" where
  "endswith s suffix =
     (length suffix \<le> length s \<and> drop (length s - length suffix) s = suffix)"

definition image_ext :: "string \<Rightarrow> bool" where
  "image_ext s = (endswith s ''.jpg'' \<or> endswith s ''.jpeg'' \<or> endswith s ''.png'')"

text \<open>What one turn of the loop stores for a path: the path with its value, or
  nothing.\<close>

definition evaluated :: "'c mtf \<Rightarrow> rat \<Rightarrow> roi_t \<Rightarrow> string \<Rightarrow> (string \<times> rat) option" where
  "evaluated m frequency roi' path =
     (case fst (process_image m path frequency (Some roi')) of
        Inr (Some mtf_value) \<Rightarrow> Some (path, mtf_value)
      | _ \<Rightarrow> None)"

text \<open>A tree with a \<open>.jng\<close> file, a hidden image and an image six levels down;
  five images side by side; and an engine for which the second and the fourth
  of them are too small for the ROI.\<close>

definition mixed_tree :: node where
  "mixed_tree =
     Dir [(''x.jng'', File),
          (''.hidden.png'', File),
          (''a'', Dir [(''b'', Dir [(''c'', Dir [(''d'', Dir [(''e'', Dir [(''deep.png'', File)])])])])])]"


definition five_tree :: node where
  "five_tree =
     Dir [(''img1.png'', File), (''img2.png'', File), (''img3.png'', File),
          (''img4.png'', File), (''img5.png'', File)]"

definition five_mtf :: "nat mtf" where
  "five_mtf =
     demo_mtf\<lparr>LoadImageAsArray :=
       (\<lambda>p. if p = ''root/img2.png'' \<or> p = ''root/img4.png'' then Inr [[0, 1]]
            else Inr [[0, 0, 1, 1], [0, 0, 1, 1], [0, 0, 1, 1], [0, 0, 1, 1]])\<rparr>"

section \<open>Properties\<close>

subsection \<open>The selector\<close>

text \<open>
  Claim C8. When no candidate ROI exists, the confirm button does nothing but
  print \<open>No ROI selected yet.\<close>: no field of the selector changes, the candidate
  stays absent, the figure stays as it was (no move to the confirmed state), and
  nothing is raised.
\<close>

theorem confirm_roi_without_candidate:
  assumes "roi self = None"
  shows "confirm_roi self = self\<lparr>printed := printed self @ [No_ROI_selected_yet]\<rparr>
         \<and> roi (confirm_roi self) = None
         \<and> fig_open (confirm_roi self) = fig_open self
         \<and> dispatch Click_Confirm self = confirm_roi self"
  using assms by (simp add: confirm_roi_def)

theorem confirm_roi_without_candidate_witness:
  "roi (arm [[0, 1], [1, 0]] ROISelector_init) = None
   \<and> confirm_roi (arm [[0, 1], [1, 0]] ROISelector_init)
       = (arm [[0, 1], [1, 0]] ROISelector_init)\<lparr>printed := [No_ROI_selected_yet]\<rparr>
   \<and> fig_open (confirm_roi (arm [[0, 1], [1, 0]] ROISelector_init))"
proof -
  have h: "roi (arm [[0, 1], [1, 0]] ROISelector_init) = None"
    by (simp add: arm_def ROISelector_init_def)
  show ?thesis
    using h confirm_roi_without_candidate [OF h]
    by (simp add: arm_def ROISelector_init_def)
qed

lemma dispatch_original:
  "original_xlim (dispatch e self) = original_xlim self
   \<and> original_ylim (dispatch e self) = original_ylim self"
  by (cases e) (auto simp: on_select_def confirm_roi_def reset_zoom_def split: option.splits)

lemma fold_dispatch_original:
  "original_xlim (fold dispatch evs self) = original_xlim self
   \<and> original_ylim (fold dispatch evs self) = original_ylim self"
  by (induction evs arbitrary: self) (simp_all add: dispatch_original)

text \<open>
  Claim C9. The reset-zoom button changes the view limits only: the candidate
  ROI and the arming flag are as before, whatever they are. When limits were
  stored at entry it sets the view to them; in every state of a session, after
  any events, these are the limits of the image shown at entry.
\<close>

theorem reset_zoom_restores_view_only:
  "reset_zoom self = self\<lparr>ax_xlim := ax_xlim (reset_zoom self), ax_ylim := ax_ylim (reset_zoom self)\<rparr>
   \<and> roi (reset_zoom self) = roi self
   \<and> selecting_roi (reset_zoom self) = selecting_roi self
   \<and> (original_xlim self = Some xl \<and> original_ylim self = Some yl \<longrightarrow>
         ax_xlim (reset_zoom self) = xl \<and> ax_ylim (reset_zoom self) = yl)
   \<and> ax_xlim (reset_zoom (fold dispatch evs (arm imgArr self))) = imshow_xlim imgArr
   \<and> ax_ylim (reset_zoom (fold dispatch evs (arm imgArr self))) = imshow_ylim imgArr"
proof -
  have a: "original_xlim (fold dispatch evs (arm imgArr self)) = Some (imshow_xlim imgArr)"
    by (simp add: fold_dispatch_original arm_def)
  have b: "original_ylim (fold dispatch evs (arm imgArr self)) = Some (imshow_ylim imgArr)"
    by (simp add: fold_dispatch_original arm_def)
  show ?thesis
    using a b by (auto simp: reset_zoom_def split: option.splits)
qed

theorem reset_zoom_restores_view_only_witness:
  "original_xlim dragged_and_zoomed = Some (- 1 / 2, 3 / 2)
   \<and> original_ylim dragged_and_zoomed = Some (3 / 2, - 1 / 2)
   \<and> ax_xlim dragged_and_zoomed = (0, 1)
   \<and> ax_xlim (reset_zoom dragged_and_zoomed) = (- 1 / 2, 3 / 2)
   \<and> ax_ylim (reset_zoom dragged_and_zoomed) = (3 / 2, - 1 / 2)
   \<and> roi (reset_zoom dragged_and_zoomed) = Some (0, 0, 1, 1)"
proof -
  have x: "original_xlim dragged_and_zoomed = Some (- 1 / 2, 3 / 2)"
    and y: "original_ylim dragged_and_zoomed = Some (3 / 2, - 1 / 2)"
    and r: "roi dragged_and_zoomed = Some (0, 0, 1, 1)"
    and v: "ax_xlim dragged_and_zoomed = (0, 1)"
    by (simp_all add: dragged_and_zoomed_def)
  from reset_zoom_restores_view_only
         [of dragged_and_zoomed "(- 1 / 2, 3 / 2)" "(3 / 2, - 1 / 2)" "[]" "[]"]
  have "roi (reset_zoom dragged_and_zoomed) = roi dragged_and_zoomed"
    and "original_xlim dragged_and_zoomed = Some (- 1 / 2, 3 / 2)
         \<and> original_ylim dragged_and_zoomed = Some (3 / 2, - 1 / 2)
         \<longrightarrow> ax_xlim (reset_zoom dragged_and_zoomed) = (- 1 / 2, 3 / 2)
             \<and> ax_ylim (reset_zoom dragged_and_zoomed) = (3 / 2, - 1 / 2)"
    by blast+
  with x y r v show ?thesis by metis
qed

subsection \<open>The evaluator\<close>

lemma array_size_zero_iff: "array_size a = 0 \<longleftrightarrow> (\<forall>row \<in> set a. row = [])"
  by (induction a) (auto simp: array_size_def)

text \<open>
  Claim C6. When the image decodes and the crop \<open>array[y1:y2, x1:x2]\<close> has no
  element along one of its axes, \<open>process_image\<close> returns \<open>None\<close>; it raises
  nothing, and the only call it has made is the decoding: the MTF computation
  is not attempted.
\<close>

theorem process_image_empty_crop:
  assumes "LoadImageAsArray m image_path = Inr loaded"
    and "length (crop loaded y1 y2 x1 x2) = 0
         \<or> (\<forall>row \<in> set (crop loaded y1 y2 x1 x2). length row = 0)"
  shows "process_image m image_path frequency (Some (x1, y1, x2, y2))
         = (Inr None, [Call_LoadImageAsArray image_path])"
proof -
  from assms(2) have "array_size (crop loaded y1 y2 x1 x2) = 0"
    by (auto simp: array_size_zero_iff)
  with assms(1) show ?thesis
    by (simp add: process_image_def)
qed

theorem process_image_empty_crop_witness:
  "process_image demo_mtf ''root/a.png'' (1 / 2) (Some (5, 5, 9, 9))
   = (Inr None, [Call_LoadImageAsArray ''root/a.png''])"
proof -
  have l: "LoadImageAsArray demo_mtf ''root/a.png'' = Inr [[0, 1 / 2, 1], [0, 1 / 2, 1]]"
    by (simp add: demo_mtf_def)
  have c: "length (crop [[0, 1 / 2, 1], [0, 1 / 2, 1]] 5 9 5 9) = 0
           \<or> (\<forall>row \<in> set (crop [[0, 1 / 2, 1], [0, 1 / 2, 1]] 5 9 5 9). length row = 0)"
    by (simp add: crop_def py_slice_def slice_index_def)
  from process_image_empty_crop [OF l c] show ?thesis .
qed

text \<open>
  Claim C2 says that \<open>process_image\<close> never raises, a failure of the decoding
  included. The call of \<open>LoadImageAsArray\<close> stands outside every \<open>try\<close>: on a
  file that does not decode, \<open>process_image\<close> raises.
\<close>

theorem process_image_raises_on_decode_failure:
  "fst (process_image demo_mtf ''root/broken.png'' (1 / 2) (Some (0, 0, 2, 2)))
   = Inl (Exception ''UnidentifiedImageError'')"
  by (simp add: process_image_def demo_mtf_def)

text \<open>
  Claim C2, amended. \<open>process_image\<close> raises exactly when the decoding raises,
  and raises that exception. Once the image is decoded, an empty crop, a failure
  of \<open>CalculateMtf\<close> and a failure of \<open>GetMtfValue\<close> each give \<open>None\<close>.
\<close>

theorem process_image_raises_only_from_decode:
  "(fst (process_image m image_path frequency roi') = Inl e
      \<longleftrightarrow> LoadImageAsArray m image_path = Inl e)
   \<and> (\<forall>loaded. LoadImageAsArray m image_path = Inr loaded \<longrightarrow>
        (let imgArr = (case roi' of None \<Rightarrow> loaded
                       | Some (x1, y1, x2, y2) \<Rightarrow> crop loaded y1 y2 x1 x2)
         in (array_size imgArr = 0
               \<longrightarrow> fst (process_image m image_path frequency roi') = Inr None)
          \<and> (\<forall>e'. CalculateMtf m imgArr = Inl e'
               \<longrightarrow> fst (process_image m image_path frequency roi') = Inr None)
          \<and> (\<forall>res e'. CalculateMtf m imgArr = Inr res \<and> GetMtfValue m res frequency = Inl e'
               \<longrightarrow> fst (process_image m image_path frequency roi') = Inr None)))"
  by (auto simp: process_image_def Let_def split: sum.splits option.splits)


theorem process_image_raises_only_from_decode_witness:
  "LoadImageAsArray demo_mtf ''root/a.png'' = Inr [[0, 1 / 2, 1], [0, 1 / 2, 1]]
   \<and> CalculateMtf demo_mtf [[0, 1 / 2]] = Inl (Exception ''EdgeNotFound'')
   \<and> fst (process_image demo_mtf ''root/a.png'' (1 / 2) (Some (0, 0, 2, 1))) = Inr None"
proof -
  have l: "LoadImageAsArray demo_mtf ''root/a.png'' = Inr [[0, 1 / 2, 1], [0, 1 / 2, 1]]"
    by (simp add: demo_mtf_def)
  have c: "crop [[0, 1 / 2, 1], [0, 1 / 2, 1]] 0 1 0 2 = [[0, 1 / 2]]"
    by (simp add: crop_def py_slice_def slice_index_def)
  have f: "CalculateMtf demo_mtf [[0, 1 / 2]] = Inl (Exception ''EdgeNotFound'')"
    by (simp add: demo_mtf_def)
  from process_image_raises_only_from_decode
         [of demo_mtf "''root/a.png''" "1 / 2" "Some (0, 0, 2, 1)"]
  have "\<forall>loaded. LoadImageAsArray demo_mtf ''root/a.png'' = Inr loaded \<longrightarrow>
          (\<forall>e'. CalculateMtf demo_mtf (crop loaded 0 1 0 2) = Inl e'
             \<longrightarrow> fst (process_image demo_mtf ''root/a.png'' (1 / 2) (Some (0, 0, 2, 1))) = Inr None)"
    by (simp add: Let_def)
  with l c f show ?thesis by simp
qed

subsection \<open>The loop of \<open>batch_process\<close>\<close>

lemma batch_loop_results_only:
  "fst (batch_loop m f r ps (results, calls, out)) = fst (batch_loop m f r ps (results, calls', out'))"
proof (induction ps arbitrary: results calls out calls' out')
  case Nil
  show ?case by simp
next
  case (Cons p ps)
  show ?case
  proof (cases "process_image m p f (Some r)")
    case (Pair res cs)
    show ?thesis
    proof (cases res)
      case (Inl e)
      with Pair Cons.IH [of results "calls @ cs" out "calls' @ cs" out'] show ?thesis by simp
    next
      case (Inr v)
      show ?thesis
      proof (cases v)
        case None
        with Pair Inr Cons.IH [of results "calls @ cs" out "calls' @ cs" out'] show ?thesis by simp
      next
        case (Some x)
        with Pair Inr
          Cons.IH [of "dict_set results p x" "calls @ cs" "out @ [MTF_value p f (100 * x)]"
                      "calls' @ cs" "out' @ [MTF_value p f (100 * x)]"]
        show ?thesis by simp
      qed
    qed
  qed
qed

lemma batch_loop_skip:
  assumes "fst (process_image m path f (Some r)) = Inl e"
  shows "batch_loop m f r (path # paths) (results, calls, out)
         = batch_loop m f r paths (results, calls @ snd (process_image m path f (Some r)), out)"
  using assms by (cases "process_image m path f (Some r)") simp

lemma batch_loop_drop_raising:
  assumes "fst (process_image m path f (Some r)) = Inl e"
  shows "fst (batch_loop m f r (before @ path # paths) st) = fst (batch_loop m f r (before @ paths) st)"
proof (induction before arbitrary: st)
  case Nil
  obtain results calls out where st: "st = (results, calls, out)" by (cases st) auto
  show ?case
    unfolding st append_Nil batch_loop_skip [OF assms]
    by (rule batch_loop_results_only)
next
  case (Cons p ps)
  obtain results calls out where st: "st = (results, calls, out)" by (cases st) auto
  show ?case
    unfolding st using Cons.IH
    by (simp split: prod.splits sum.splits option.splits)
qed

text \<open>
  Claim C10. When \<open>process_image\<close> raises on a path, the handler of the loop
  catches the exception: the dict is passed on unchanged, no entry is added, and
  the loop goes on with the paths that are left. The dict returned after the
  last path is the one returned when the raising path is not in the list.
\<close>

theorem batch_loop_absorbs_exception:
  assumes "fst (process_image m path frequency (Some roi')) = Inl e"
  shows "batch_loop m frequency roi' (path # paths) (results, calls, out)
           = batch_loop m frequency roi' paths
               (results, calls @ snd (process_image m path frequency (Some roi')), out)
         \<and> fst (batch_loop m frequency roi' (before @ path # paths) st)
           = fst (batch_loop m frequency roi' (before @ paths) st)"
  using batch_loop_skip [OF assms] batch_loop_drop_raising [OF assms] by blast

theorem batch_loop_absorbs_exception_witness:
  "fst (process_image demo_mtf ''root/broken.png'' (1 / 2) (Some (0, 0, 2, 2)))
     = Inl (Exception ''UnidentifiedImageError'')
   \<and> fst (batch_loop demo_mtf (1 / 2) (0, 0, 2, 2) [''root/a.png'', ''root/broken.png'', ''root/c.png'']
           ([], [], []))
     = [(''root/a.png'', 1 / 2), (''root/c.png'', 1 / 2)]"
proof -
  have h: "fst (process_image demo_mtf ''root/broken.png'' (1 / 2) (Some (0, 0, 2, 2)))
           = Inl (Exception ''UnidentifiedImageError'')"
    by (simp add: process_image_def demo_mtf_def)
  have g: "fst (batch_loop demo_mtf (1 / 2) (0, 0, 2, 2) ([''root/a.png''] @ [''root/c.png'']) ([], [], []))
           = [(''root/a.png'', 1 / 2), (''root/c.png'', 1 / 2)]"
    by (simp add: process_image_def demo_mtf_def crop_def py_slice_def slice_index_def array_size_def)
  from batch_loop_absorbs_exception [OF h, of "[''root/c.png'']" "[]" "[]" "[]" "[''root/a.png'']" "([], [], [])"] g h
  show ?thesis by simp
qed

subsection \<open>The session of the selector\<close>

lemma armed_arm: "armed (arm imgArr self)"
  by (simp add: armed_def arm_def)

lemma armed_dispatch: "armed self \<Longrightarrow> armed (dispatch e self)"
  by (cases e) (auto simp: armed_def on_select_def confirm_roi_def reset_zoom_def split: option.splits)

lemma roi_dispatch_drag:
  "armed self \<Longrightarrow>
   roi (dispatch (Drag a b) self) = Some (py_int (fst a), py_int (snd a), py_int (fst b), py_int (snd b))"
  by (simp add: armed_def on_select_def)

lemma roi_dispatch_other: "\<not> is_drag e \<Longrightarrow> roi (dispatch e self) = roi self"
  by (cases e) (auto simp: confirm_roi_def reset_zoom_def split: option.splits)

lemma plt_show_no_drag:
  "plt_show evs self = Some self' \<Longrightarrow> \<forall>e \<in> set (delivered evs self). \<not> is_drag e \<Longrightarrow>
   roi self' = roi self"
proof (induction evs arbitrary: self)
  case Nil
  then show ?case by (simp split: if_splits)
next
  case (Cons e es)
  show ?case
  proof (cases "fig_open self")
    case True
    with Cons.prems have "plt_show es (dispatch e self) = Some self'"
      and "\<forall>x \<in> set (delivered es (dispatch e self)). \<not> is_drag x" and "\<not> is_drag e"
      by simp_all
    with Cons.IH [of "dispatch e self"] show ?thesis
      by (simp add: roi_dispatch_other)
  next
    case False
    with Cons.prems show ?thesis by simp
  qed
qed

lemma plt_show_roi_none:
  "armed self \<Longrightarrow> plt_show evs self = Some self' \<Longrightarrow>
   roi self' = None \<longleftrightarrow> roi self = None \<and> (\<forall>e \<in> set (delivered evs self). \<not> is_drag e)"
proof (induction evs arbitrary: self)
  case Nil
  then show ?case by (simp split: if_splits)
next
  case (Cons e es)
  show ?case
  proof (cases "fig_open self")
    case True
    with Cons.prems have s: "plt_show es (dispatch e self) = Some self'" by simp
    have a: "armed (dispatch e self)" using Cons.prems(1) by (rule armed_dispatch)
    have "roi (dispatch e self) = None \<longleftrightarrow> roi self = None \<and> \<not> is_drag e"
    proof (cases "is_drag e")
      case True
      then obtain p q where "e = Drag p q" by (cases e) auto
      with Cons.prems(1) show ?thesis by (simp add: armed_def on_select_def)
    next
      case False
      then show ?thesis by (simp add: roi_dispatch_other)
    qed
    with Cons.IH [OF a s] True show ?thesis by auto
  next
    case False
    with Cons.prems show ?thesis by simp
  qed
qed

lemma plt_show_last_drag:
  "armed self \<Longrightarrow> plt_show evs self = Some self' \<Longrightarrow>
   delivered evs self = pre @ Drag a b # post \<Longrightarrow> \<forall>e \<in> set post. \<not> is_drag e \<Longrightarrow>
   roi self' = Some (py_int (fst a), py_int (snd a), py_int (fst b), py_int (snd b))"
proof (induction evs arbitrary: self pre)
  case Nil
  then show ?case by simp
next
  case (Cons e es)
  show ?case
  proof (cases "fig_open self")
    case True
    with Cons.prems have s: "plt_show es (dispatch e self) = Some self'"
      and d: "e # delivered es (dispatch e self) = pre @ Drag a b # post"
      by simp_all
    have ar: "armed (dispatch e self)" using Cons.prems(1) by (rule armed_dispatch)
    show ?thesis
    proof (cases pre)
      case Nil
      with d have "e # delivered es (dispatch e self) = Drag a b # post"
        by (simp only: append_Nil)
      then have e: "e = Drag a b" and p: "delivered es (dispatch e self) = post"
        by (rule list.inject [THEN iffD1, THEN conjunct1], rule list.inject [THEN iffD1, THEN conjunct2])
      from plt_show_no_drag [OF s] p Cons.prems(4) have "roi self' = roi (dispatch e self)"
        by (simp del: dispatch.simps)
      with e Cons.prems(1) show ?thesis by (simp add: armed_def on_select_def)
    next
      case (Cons p pre')
      with d have "delivered es (dispatch e self) = pre' @ Drag a b # post" by auto
      from Cons.IH [OF ar s this Cons.prems(4)] show ?thesis .
    qed
  next
    case False
    with Cons.prems show ?thesis by simp
  qed
qed

text \<open>
  Claim C3 says that a session that ends without a confirmation fails with
  \<open>No ROI selected\<close>, also when a drag was completed. \<open>select_roi\<close> looks at
  \<open>self.roi\<close> only: after a drag, closing the window returns the dragged
  rectangle, and the confirm button was never clicked.
\<close>

theorem select_roi_returns_unconfirmed_candidate:
  "map_option fst (select_roi [Drag (1 / 4, 1 / 2) (5 / 4, 3 / 2), Close_Window]
                     [[0, 1], [1, 0]] ROISelector_init)
   = Some (Inr (0, 0, 1, 1))"
  by (simp add: select_roi_def arm_def ROISelector_init_def on_select_def py_int_def floor_unique)

text \<open>
  Claim C3, amended. When the session ends, \<open>select_roi\<close> fails with
  \<open>No ROI selected\<close> exactly when no candidate exists: the selector had none at
  entry and no drag was completed before the window closed. After a completed
  drag it returns the bounds of the last one, confirmed or not.
\<close>

theorem select_roi_fails_iff_no_candidate:
  assumes "select_roi evs imgArr self = Some (res, self')"
  shows "(res = Inl No_ROI_selected
            \<longleftrightarrow> roi self = None \<and> (\<forall>e \<in> set (delivered evs (arm imgArr self)). \<not> is_drag e))
         \<and> (\<forall>pre a b post.
               delivered evs (arm imgArr self) = pre @ Drag a b # post
               \<and> (\<forall>e \<in> set post. \<not> is_drag e)
               \<longrightarrow> res = Inr (py_int (fst a), py_int (snd a), py_int (fst b), py_int (snd b)))"
proof -
  from assms obtain s where s: "plt_show evs (arm imgArr self) = Some s"
    and res: "res = (case roi s of None \<Rightarrow> Inl No_ROI_selected | Some r \<Rightarrow> Inr r)"
    by (auto simp: select_roi_def Let_def split: option.splits)
  have r0: "roi (arm imgArr self) = roi self" by (simp add: arm_def)
  from plt_show_roi_none [OF armed_arm s] r0
  have n: "roi s = None \<longleftrightarrow> roi self = None \<and> (\<forall>e \<in> set (delivered evs (arm imgArr self)). \<not> is_drag e)"
    by simp
  have one: "res = Inl No_ROI_selected
            \<longleftrightarrow> roi self = None \<and> (\<forall>e \<in> set (delivered evs (arm imgArr self)). \<not> is_drag e)"
    unfolding n [symmetric] res by (simp split: option.splits)
  have two: "res = Inr (py_int (fst a), py_int (snd a), py_int (fst b), py_int (snd b))"
    if "delivered evs (arm imgArr self) = pre @ Drag a b # post" "\<forall>e \<in> set post. \<not> is_drag e"
    for pre a b post
    using plt_show_last_drag [OF armed_arm s that] res by simp
  from one two show ?thesis by blast
qed

theorem select_roi_fails_iff_no_candidate_witness:
  "select_roi [Click_Confirm, Pan_Zoom (0, 1) (1, 0), Click_Reset_Zoom, Close_Window, Drag (0, 0) (1, 1)]
     [[0, 1], [1, 0]] ROISelector_init
   = Some (Inl No_ROI_selected,
           (arm [[0, 1], [1, 0]] ROISelector_init)
             \<lparr>selecting_roi := False, fig_open := False, printed := [No_ROI_selected_yet]\<rparr>)
   \<and> roi ROISelector_init = None
   \<and> delivered [Click_Confirm, Pan_Zoom (0, 1) (1, 0), Click_Reset_Zoom, Close_Window, Drag (0, 0) (1, 1)]
       (arm [[0, 1], [1, 0]] ROISelector_init)
     = [Click_Confirm, Pan_Zoom (0, 1) (1, 0), Click_Reset_Zoom, Close_Window]"
proof -
  let ?evs = "[Click_Confirm, Pan_Zoom (0, 1) (1, 0), Click_Reset_Zoom, Close_Window, Drag (0, 0) (1, 1)]"
  let ?s = "(arm [[0, 1], [1, 0]] ROISelector_init)
             \<lparr>selecting_roi := False, fig_open := False, printed := [No_ROI_selected_yet]\<rparr>"
  have d: "delivered ?evs (arm [[0, 1], [1, 0]] ROISelector_init)
           = [Click_Confirm, Pan_Zoom (0, 1) (1, 0), Click_Reset_Zoom, Close_Window]"
    by (simp add: arm_def ROISelector_init_def confirm_roi_def reset_zoom_def)
  have r: "roi ROISelector_init = None" by (simp add: ROISelector_init_def)
  have "\<exists>res. select_roi ?evs [[0, 1], [1, 0]] ROISelector_init = Some (res, ?s)"
    by (simp add: select_roi_def arm_def ROISelector_init_def confirm_roi_def reset_zoom_def Let_def)
  then obtain res where e: "select_roi ?evs [[0, 1], [1, 0]] ROISelector_init = Some (res, ?s)" ..
  have nd: "\<forall>e \<in> set (delivered ?evs (arm [[0, 1], [1, 0]] ROISelector_init)). \<not> is_drag e"
    unfolding d by simp
  from select_roi_fails_iff_no_candidate [OF e] r nd have "res = Inl No_ROI_selected" by blast
  with e d r show ?thesis by blast
qed

subsection \<open>The start of \<open>batch_process\<close>\<close>

text \<open>
  Claim C7. When the filtered list of paths is empty, \<open>batch_process\<close> raises
  \<open>No images found\<close> and has made no call: neither an image is loaded nor the
  window shown. When the list is not empty, whatever the run raises or returns
  comes after its first call, the loading of the first path for \<open>get_roi\<close>:
  nothing is raised by the discovery.
\<close>

theorem batch_process_stops_without_images:
  "(image_paths fs directory_path = []
      \<longrightarrow> batch_process m fs evs directory_path frequency = Some (Inl No_images_found, [], []))
   \<and> (image_paths fs directory_path \<noteq> []
      \<longrightarrow> (\<forall>res calls out.
             batch_process m fs evs directory_path frequency = Some (res, calls, out)
             \<longrightarrow> calls \<noteq> [] \<and> hd calls = Call_LoadImageAsArray (hd (image_paths fs directory_path))))"
proof -
  have gr: "cs \<noteq> [] \<and> hd cs = Call_LoadImageAsArray p"
    if "get_roi m evs p = Some (r, cs, out)" for p r cs out
    using that by (auto simp: get_roi_def split: sum.splits option.splits)
  have bl: "\<exists>cs'. fst (snd (batch_loop m frequency r ps (results, cs, out))) = cs @ cs'"
    for r ps results cs out
  proof (induction ps arbitrary: results cs out)
    case Nil
    show ?case by simp
  next
    case (Cons p ps)
    obtain x c where pi: "process_image m p frequency (Some r) = (x, c)" by (cases "process_image m p frequency (Some r)")
    show ?case
    proof (cases x)
      case (Inl e)
      with pi Cons.IH [of results "cs @ c" out] show ?thesis by auto
    next
      case (Inr v)
      show ?thesis
      proof (cases v)
        case None
        with pi Inr Cons.IH [of results "cs @ c" out] show ?thesis by auto
      next
        case (Some y)
        with pi Inr Cons.IH [of "dict_set results p y" "cs @ c" "out @ [MTF_value p frequency (100 * y)]"]
        show ?thesis by auto
      qed
    qed
  qed
  show ?thesis
  proof (intro conjI impI allI)
    assume "image_paths fs directory_path = []"
    then show "batch_process m fs evs directory_path frequency = Some (Inl No_images_found, [], [])"
      by (simp add: batch_process_def)
  next
    fix res calls out
    assume ne: "image_paths fs directory_path \<noteq> []"
      and b: "batch_process m fs evs directory_path frequency = Some (res, calls, out)"
    let ?p = "hd (image_paths fs directory_path)"
    from ne b obtain r cs o1 where g: "get_roi m evs ?p = Some (r, cs, o1)"
      by (auto simp: batch_process_def Let_def split: option.splits)
    note c = gr [OF g]
    show "calls \<noteq> []" "hd calls = Call_LoadImageAsArray ?p"
    proof -
      have "calls \<noteq> [] \<and> hd calls = Call_LoadImageAsArray ?p"
      proof (cases r)
        case (Inl e)
        with ne b g c show ?thesis by (simp add: batch_process_def Let_def)
      next
        case (Inr rr)
        from bl [of rr "image_paths fs directory_path" "[]" cs o1]
        obtain cs' where "fst (snd (batch_loop m frequency rr (image_paths fs directory_path) ([], cs, o1))) = cs @ cs'" ..
        with Inr ne b g have "calls = cs @ cs'"
          by (auto simp: batch_process_def Let_def split: prod.splits)
        with c show ?thesis by (cases cs) auto
      qed
      then show "calls \<noteq> []" "hd calls = Call_LoadImageAsArray ?p" by simp_all
    qed
  qed
qed

theorem batch_process_stops_without_images_witness:
  "image_paths text_only_tree ''root'' = []
   \<and> batch_process demo_mtf text_only_tree [Drag (0, 0) (2, 2), Click_Confirm] ''root'' (1 / 2)
       = Some (Inl No_images_found, [], [])
   \<and> image_paths spec_tree ''root'' \<noteq> []
   \<and> batch_process demo_mtf spec_tree [Close_Window] ''root'' (1 / 2)
       = Some (Inl No_ROI_selected, [Call_LoadImageAsArray ''root/a/b/img2.jpg'', Call_show], [])
   \<and> hd [Call_LoadImageAsArray ''root/a/b/img2.jpg'', Call_show :: nat call]
       = Call_LoadImageAsArray (hd (image_paths spec_tree ''root''))"
proof -
  have e: "image_paths text_only_tree ''root'' = []"
    by code_simp
  have n: "image_paths spec_tree ''root'' = [''root/a/b/img2.jpg'', ''root/a/img1.png'']"
    by code_simp
  have ne: "image_paths spec_tree ''root'' \<noteq> []"
    unfolding n by simp
  have b: "batch_process demo_mtf spec_tree [Close_Window] ''root'' (1 / 2)
           = Some (Inl No_ROI_selected, [Call_LoadImageAsArray ''root/a/b/img2.jpg'', Call_show], [])"
    unfolding batch_process_def n
    by (simp add: get_roi_def demo_mtf_def select_roi_def arm_def ROISelector_init_def)
  note t = batch_process_stops_without_images
  from t [of text_only_tree "''root''" demo_mtf "[Drag (0, 0) (2, 2), Click_Confirm]" "1 / 2"] e
  have one: "batch_process demo_mtf text_only_tree [Drag (0, 0) (2, 2), Click_Confirm] ''root'' (1 / 2)
             = Some (Inl No_images_found, [], [])"
    by blast
  from t [of spec_tree "''root''" demo_mtf "[Close_Window]" "1 / 2"] ne b
  have two: "hd [Call_LoadImageAsArray ''root/a/b/img2.jpg'', Call_show :: nat call]
             = Call_LoadImageAsArray (hd (image_paths spec_tree ''root''))"
    by blast
  from e one ne b two show ?thesis by blast
qed

section \<open>Discovery\<close>

subsection \<open>Patterns\<close>

lemma tok_match_star:
  "tok_match (Star # ps) s \<longleftrightarrow> (\<exists>pre suf. s = pre @ suf \<and> tok_match ps suf)"
proof (induction s)
  case Nil
  show ?case by simp
next
  case (Cons c cs)
  show ?case
  proof
    assume "tok_match (Star # ps) (c # cs)"
    then consider "tok_match ps (c # cs)" | "tok_match (Star # ps) cs" by auto
    then show "\<exists>pre suf. c # cs = pre @ suf \<and> tok_match ps suf"
    proof cases
      case 1
      then have "c # cs = [] @ (c # cs) \<and> tok_match ps (c # cs)" by simp
      then show ?thesis by blast
    next
      case 2
      with Cons.IH obtain pre suf where "cs = pre @ suf" "tok_match ps suf" by blast
      then have "c # cs = (c # pre) @ suf \<and> tok_match ps suf" by simp
      then show ?thesis by blast
    qed
  next
    assume "\<exists>pre suf. c # cs = pre @ suf \<and> tok_match ps suf"
    then obtain pre suf where e: "c # cs = pre @ suf" and m: "tok_match ps suf" by blast
    show "tok_match (Star # ps) (c # cs)"
    proof (cases pre)
      case Nil
      with e have "suf = c # cs" by simp
      with m show ?thesis by simp
    next
      case (Cons p pre')
      with e have "cs = pre' @ suf" by simp
      with m Cons.IH have "tok_match (Star # ps) cs" by blast
      then show ?thesis by simp
    qed
  qed
qed

lemma tok_match_ext3:
  "tok_match [Lit CHR ''.'', OneOf ''jp'', OneOf ''pn'', Lit CHR ''g''] suf
   \<longleftrightarrow> suf \<in> {''.jpg'', ''.jng'', ''.ppg'', ''.png''}"
proof (cases suf)
  case Nil
  then show ?thesis by simp
next
  case (Cons a s1)
  show ?thesis
  proof (cases s1)
    case Nil
    with Cons show ?thesis by simp
  next
    case (Cons b s2)
    note c2 = Cons
    show ?thesis
    proof (cases s2)
      case Nil
      with c2 \<open>suf = a # s1\<close> show ?thesis by simp
    next
      case (Cons c s3)
      note c3 = Cons
      show ?thesis
      proof (cases s3)
        case Nil
        with c2 c3 \<open>suf = a # s1\<close> show ?thesis by simp
      next
        case (Cons d s4)
        with c2 c3 \<open>suf = a # s1\<close> show ?thesis by (cases s4) auto
      qed
    qed
  qed
qed

lemma tok_match_lits: "tok_match (map Lit w) suf \<longleftrightarrow> suf = w"
proof (induction w arbitrary: suf)
  case Nil
  show ?case by simp
next
  case (Cons a w)
  then show ?case by (cases suf) auto
qed

lemma fnmatch_file_pattern:
  "fnmatch name ''*.[jp][pn]g''
   \<longleftrightarrow> (\<exists>pre suf. name = pre @ suf \<and> suf \<in> {''.jpg'', ''.jng'', ''.ppg'', ''.png''})"
proof -
  have t: "translate None ''*.[jp][pn]g'' = [Star, Lit CHR ''.'', OneOf ''jp'', OneOf ''pn'', Lit CHR ''g'']"
    by simp
  show ?thesis
    unfolding fnmatch_def t tok_match_star tok_match_ext3 ..
qed

lemma fnmatch_jpeg_pattern:
  "fnmatch name ''*.jpeg'' \<longleftrightarrow> (\<exists>pre. name = pre @ ''.jpeg'')"
proof -
  have t: "translate None ''*.jpeg'' = Star # map Lit ''.jpeg''"
    by simp
  show ?thesis
    unfolding fnmatch_def t tok_match_star tok_match_lits by blast
qed

lemma patterns_disjoint:
  assumes "p = a @ x" "fnmatch x ''*.[jp][pn]g''" "p = b @ y" "fnmatch y ''*.jpeg''"
  shows False
proof -
  from assms(1,2) obtain u suf where u: "p = u @ suf" and s: "suf \<in> {''.jpg'', ''.jng'', ''.ppg'', ''.png''}"
    unfolding fnmatch_file_pattern by (metis append.assoc)
  from assms(3,4) obtain v where v: "p = v @ ''.jpeg''"
    unfolding fnmatch_jpeg_pattern by (metis append.assoc)
  from s have l: "length suf = 4" and h: "hd suf = CHR ''.''" by auto
  from u l have "rev p ! 3 = hd suf"
    by (cases suf rule: rev_cases) (auto simp: nth_append hd_conv_nth rev_nth)
  moreover from v have "rev p ! 3 = CHR ''j''" by simp
  ultimately show False using h by simp
qed


subsection \<open>Joining paths\<close>

lemma os_path_join_Nil [simp]: "os_path_join [] b = b"
  by (simp add: os_path_join_def)

lemma os_path_join_assoc:
  "os_path_join (os_path_join a b) c = os_path_join a (os_path_join b c)"
proof (cases "c \<noteq> [] \<and> hd c = os_sep")
  case True
  then show ?thesis by (simp add: os_path_join_def)
next
  case False
  note c = False
  show ?thesis
  proof (cases "b = []")
    case True
    with c show ?thesis by (auto simp: os_path_join_def)
  next
    case False
    with c show ?thesis by (auto simp: os_path_join_def hd_append)
  qed
qed

lemma os_path_join_suffix: "\<exists>pre. os_path_join d x = pre @ x"
proof (cases "x \<noteq> [] \<and> hd x = os_sep")
  case True
  then have "os_path_join d x = [] @ x" by (simp add: os_path_join_def)
  then show ?thesis by blast
next
  case False
  then have "os_path_join d x = d @ x \<or> os_path_join d x = (d @ [os_sep]) @ x"
    by (auto simp: os_path_join_def)
  then show ?thesis by blast
qed

lemma os_path_join_rel:
  "r \<noteq> [] \<Longrightarrow> hd r \<noteq> os_sep \<Longrightarrow>
   os_path_join h r = (if h = [] \<or> last h = os_sep then h else h @ [os_sep]) @ r"
  by (simp add: os_path_join_def)

lemma os_path_join_name:
  "x \<noteq> [] \<Longrightarrow> os_sep \<notin> set x \<Longrightarrow> r \<noteq> [] \<Longrightarrow> hd r \<noteq> os_sep \<Longrightarrow>
   os_path_join x r = x @ os_sep # r"
proof -
  assume x: "x \<noteq> []" "os_sep \<notin> set x" and r: "r \<noteq> []" "hd r \<noteq> os_sep"
  from x have "last x \<noteq> os_sep" using last_in_set [of x] by metis
  with x r show ?thesis by (simp add: os_path_join_def)
qed

subsection \<open>The matches of a scan\<close>

lemma map_os_path_join_Nil [simp]: "map (os_path_join []) xs = xs"
  by (induction xs) simp_all

lemma concat_map_join:
  "concat (map (\<lambda>(d, n). map (os_path_join d) (glob1 n b)) (map (\<lambda>(d, n). (os_path_join h d, n)) ds))
   = map (os_path_join h) (concat (map (\<lambda>(rel, n). map (os_path_join rel) (glob1 n b)) ds))"
  by (induction ds) (auto simp: os_path_join_assoc)

lemma concat_map_concat:
  "concat (map g (concat xss)) = concat (map (\<lambda>xs. concat (map g xs)) xss)"
  by (induction xss) simp_all

lemma rel_matches_File [simp]: "rel_matches pattern File = []"
  by (simp add: rel_matches_def glob2_def)

lemma rel_matches_isdir:
  "isdir n \<Longrightarrow>
   rel_matches pattern n
   = glob1 n pattern
     @ concat (map (\<lambda>(rel, m). map (os_path_join rel) (glob1 m pattern)) (rlistdir n))"
  by (simp add: rel_matches_def glob2_def)

lemma rel_matches_Dir:
  "rel_matches pattern (Dir es)
   = glob1 (Dir es) pattern
     @ concat (map (\<lambda>(x, n). if ishidden x \<or> \<not> isdir n then []
                             else map (os_path_join x) (rel_matches pattern n)) es)"
proof -
  let ?g = "\<lambda>(rel, m). map (os_path_join rel) (glob1 m pattern)"
  have part: "concat (map ?g (if ishidden x \<or> \<not> isdir n then []
                             else (x, n) # map (\<lambda>(y, m). (os_path_join x y, m)) (rlistdir n)))
              = (if ishidden x \<or> \<not> isdir n then []
                 else map (os_path_join x) (rel_matches pattern n))" for x n
  proof (cases "ishidden x \<or> \<not> isdir n")
    case True
    then show ?thesis by simp
  next
    case False
    have "concat (map ?g (map (\<lambda>(y, m). (os_path_join x y, m)) (rlistdir n)))
          = map (os_path_join x) (concat (map ?g (rlistdir n)))"
      by (rule concat_map_join)
    with False show ?thesis
      by (simp add: rel_matches_isdir)
  qed
  define h where "h = (\<lambda>(x, n). if ishidden x \<or> \<not> isdir n then []
                             else (x, n) # map (\<lambda>(y, m). (os_path_join x y, m)) (rlistdir n))"
  define k where "k = (\<lambda>(x, n). if ishidden x \<or> \<not> isdir n then []
                             else map (os_path_join x) (rel_matches pattern n))"
  have hk: "concat (map ?g (h e)) = k e" for e
    unfolding h_def k_def using part by (cases e) (simp only: prod.case)
  have "concat (map ?g (concat (map h es))) = concat (map k es)"
    by (induction es) (simp_all add: hk)
  then have "concat (map ?g (rlistdir (Dir es))) = concat (map k es)"
    unfolding rlistdir.simps h_def .
  then show ?thesis
    unfolding k_def by (simp add: rel_matches_isdir)
qed

lemma glob_glob_rel_matches:
  "glob_glob fs pathname =
     (let (dirname, basename) = os_path_split pathname;
          (head, rec) = os_path_split dirname
      in if rec \<noteq> ''**'' then [] else map (os_path_join head) (rel_matches basename fs))"
proof -
  obtain dirname basename where s1: "os_path_split pathname = (dirname, basename)"
    by (cases "os_path_split pathname")
  obtain head rec where s2: "os_path_split dirname = (head, rec)"
    by (cases "os_path_split dirname")
  show ?thesis
  proof (cases "rec = ''**''")
    case False
    with s1 s2 show ?thesis by (simp add: glob_glob_def)
  next
    case True
    show ?thesis
    proof (cases "head = []")
      case True
      with \<open>rec = ''**''\<close> s1 s2 show ?thesis
        by (simp add: glob_glob_def rel_matches_def)
    next
      case False
      have "glob_glob fs pathname
            = concat (map (\<lambda>(d, n). map (os_path_join d) (glob1 n basename))
                        (map (\<lambda>(d, n). (os_path_join head d, n)) (glob2 fs)))"
        using False \<open>rec = ''**''\<close> s1 s2 by (simp add: glob_glob_def del: map_map)
      also have "\<dots> = map (os_path_join head) (rel_matches basename fs)"
        unfolding rel_matches_def by (rule concat_map_join)
      finally show ?thesis
        using \<open>rec = ''**''\<close> s1 s2 by simp
    qed
  qed
qed


subsection \<open>No path is found twice\<close>

lemma glob1_names: "r \<in> set (glob1 (Dir es) pattern) \<Longrightarrow> r \<in> fst ` set es"
  by (auto simp: glob1_def split: if_splits)

lemma glob1_fnmatch: "x \<in> set (glob1 n pattern) \<Longrightarrow> fnmatch x pattern"
  by (auto simp: glob1_def split: if_splits)

lemma distinct_glob1: "distinct (map fst es) \<Longrightarrow> distinct (glob1 (Dir es) pattern)"
  by (simp add: glob1_def)

lemma rel_matches_cases:
  assumes "r \<in> set (rel_matches pattern (Dir es))"
  obtains (here) "r \<in> set (glob1 (Dir es) pattern)"
  | (below) x m r' where "(x, m) \<in> set es" "r' \<in> set (rel_matches pattern m)" "r = os_path_join x r'"
  using assms unfolding rel_matches_Dir by (auto split: if_splits)

lemma rel_matches_wf_elem:
  "wf_node n \<Longrightarrow> r \<in> set (rel_matches pattern n) \<Longrightarrow> r \<noteq> [] \<and> hd r \<noteq> os_sep"
proof (induction n arbitrary: r)
  case File
  then show ?case by simp
next
  case (Dir es)
  have wf: "x \<noteq> [] \<and> os_sep \<notin> set x \<and> wf_node m" if "(x, m) \<in> set es" for x m
    using Dir.prems(1) that by auto
  from Dir.prems(2) show ?case
  proof (cases rule: rel_matches_cases)
    case here
    then obtain m where "(r, m) \<in> set es" using glob1_names by fastforce
    from wf [OF this] have "r \<noteq> []" "os_sep \<notin> set r" by simp_all
    then show ?thesis using hd_in_set [of r] by metis
  next
    case (below x m r')
    from wf [OF below(1)] have x: "x \<noteq> []" "os_sep \<notin> set x" and m: "wf_node m" by simp_all
    from Dir.IH [of "(x, m)" m r'] below(1,2) m have r': "r' \<noteq> []" "hd r' \<noteq> os_sep" by simp_all
    from x r' below(3) have "r = x @ os_sep # r'" by (simp add: os_path_join_name)
    with x show ?thesis using hd_in_set [of x] by (metis append_is_Nil_conv hd_append2)
  qed
qed

lemma distinct_concat_keyed:
  assumes "distinct (map fst es)"
    and "\<And>x n. (x, n) \<in> set es \<Longrightarrow> distinct (f (x, n))"
    and "\<And>x n r. (x, n) \<in> set es \<Longrightarrow> r \<in> set (f (x, n)) \<Longrightarrow> key r = x"
  shows "distinct (concat (map f es))"
  using assms
proof (induction es)
  case Nil
  show ?case by simp
next
  case (Cons e es)
  obtain x n where e: "e = (x, n)" by (cases e)
  have 1: "distinct (f (x, n))" using Cons.prems(2) [of x n] e by simp
  have 2: "distinct (concat (map f es))"
  proof (rule Cons.IH)
    show "distinct (map fst es)" using Cons.prems(1) by simp
  next
    fix x n assume "(x, n) \<in> set es"
    then show "distinct (f (x, n))" using Cons.prems(2) [of x n] by simp
  next
    fix x n r assume "(x, n) \<in> set es" "r \<in> set (f (x, n))"
    then show "key r = x" using Cons.prems(3) [of x n r] by simp
  qed
  have 3: "set (f (x, n)) \<inter> set (concat (map f es)) = {}"
  proof (rule ccontr)
    assume "set (f (x, n)) \<inter> set (concat (map f es)) \<noteq> {}"
    then obtain r e' where r: "r \<in> set (f (x, n))" and e': "e' \<in> set es" "r \<in> set (f e')" by auto
    obtain x' n' where p: "e' = (x', n')" by (cases e')
    from Cons.prems(3) [of x n r] r e have "key r = x" by simp
    moreover from Cons.prems(3) [of x' n' r] e' p have "key r = x'" by simp
    ultimately have "x = x'" by simp
    with e' p have "x \<in> fst ` set es" by force
    with Cons.prems(1) e show False by simp
  qed
  from 1 2 3 e show ?case by simp
qed

lemma takeWhile_name:
  "os_sep \<notin> set x \<Longrightarrow> takeWhile (\<lambda>c. c \<noteq> os_sep) (x @ os_sep # r) = x"
  by (induction x) auto

lemma distinct_rel_matches: "wf_node n \<Longrightarrow> distinct (rel_matches pattern n)"
proof (induction n)
  case File
  show ?case by simp
next
  case (Dir es)
  have wf: "x \<noteq> [] \<and> os_sep \<notin> set x \<and> wf_node m" if "(x, m) \<in> set es" for x m
    using Dir.prems that by auto
  have dn: "distinct (map fst es)" using Dir.prems by simp
  let ?f = "\<lambda>(x, n). if ishidden x \<or> \<not> isdir n then []
                      else map (os_path_join x) (rel_matches pattern n)"
  have shape: "map (os_path_join x) (rel_matches pattern m)
               = map (\<lambda>r. x @ os_sep # r) (rel_matches pattern m)" if "(x, m) \<in> set es" for x m
  proof (rule map_cong [OF refl])
    fix r assume "r \<in> set (rel_matches pattern m)"
    with wf [OF that] rel_matches_wf_elem [of m r pattern]
    show "os_path_join x r = x @ os_sep # r" by (simp add: os_path_join_name)
  qed
  have d1: "distinct (?f (x, m))" if "(x, m) \<in> set es" for x m
  proof -
    from Dir.IH [of "(x, m)" m] that wf [OF that] have "distinct (rel_matches pattern m)" by simp
    then have "distinct (map (\<lambda>r. x @ os_sep # r) (rel_matches pattern m))"
      by (simp add: distinct_map inj_on_def)
    then have "distinct (map (os_path_join x) (rel_matches pattern m))"
      unfolding shape [OF that] .
    then show ?thesis by simp
  qed
  have k: "takeWhile (\<lambda>c. c \<noteq> os_sep) r = x" if "(x, m) \<in> set es" "r \<in> set (?f (x, m))" for x m r
  proof -
    from that(2) have "r \<in> set (map (os_path_join x) (rel_matches pattern m))"
      by (simp split: if_splits)
    with shape [OF that(1)] obtain r' where "r = x @ os_sep # r'" by auto
    with wf [OF that(1)] show ?thesis by (simp add: takeWhile_name)
  qed
  have below: "distinct (concat (map ?f es))"
  proof (rule distinct_concat_keyed [where key = "takeWhile (\<lambda>c. c \<noteq> os_sep)" and f = ?f])
    show "distinct (map fst es)" by (rule dn)
  next
    fix x n assume "(x, n) \<in> set es"
    then show "distinct (?f (x, n))" by (rule d1)
  next
    fix x n r assume "(x, n) \<in> set es" "r \<in> set (?f (x, n))"
    then show "takeWhile (\<lambda>c. c \<noteq> os_sep) r = x" by (rule k)
  qed
  have sep: "os_sep \<in> set r" if "r \<in> set (concat (map ?f es))" for r
  proof -
    from that obtain x m where xm: "(x, m) \<in> set es" and "r \<in> set (?f (x, m))" by auto
    then have "r \<in> set (map (os_path_join x) (rel_matches pattern m))"
      by (simp split: if_splits)
    with shape [OF xm] show ?thesis by auto
  qed
  have nosep: "os_sep \<notin> set r" if "r \<in> set (glob1 (Dir es) pattern)" for r
  proof -
    from that obtain m where "(r, m) \<in> set es" using glob1_names by fastforce
    from wf [OF this] show ?thesis by simp
  qed
  from sep nosep have "set (glob1 (Dir es) pattern) \<inter> set (concat (map ?f es)) = {}" by blast
  with below distinct_glob1 [OF dn, of pattern] show ?case
    unfolding rel_matches_Dir by simp
qed

lemma distinct_glob_glob: "wf_node fs \<Longrightarrow> distinct (glob_glob fs pathname)"
proof -
  assume wf: "wf_node fs"
  have "distinct (map (os_path_join h) (rel_matches b fs))" for h b
  proof -
    have eq: "map (os_path_join h) (rel_matches b fs)
          = map (\<lambda>r. (if h = [] \<or> last h = os_sep then h else h @ [os_sep]) @ r) (rel_matches b fs)"
      by (rule map_cong [OF refl]) (use rel_matches_wf_elem [OF wf] in \<open>simp add: os_path_join_rel\<close>)
    have "distinct (map (\<lambda>r. (if h = [] \<or> last h = os_sep then h else h @ [os_sep]) @ r) (rel_matches b fs))"
      using distinct_rel_matches [OF wf, of b] by (simp add: distinct_map inj_on_def)
    then show ?thesis unfolding eq .
  qed
  then show ?thesis
    unfolding glob_glob_rel_matches by (simp add: Let_def split: prod.splits)
qed


subsection \<open>Splitting the patterns\<close>

lemma os_path_split_snd:
  "snd (os_path_split p) = rev (takeWhile (\<lambda>c. c \<noteq> os_sep) (rev p))"
  by (simp add: os_path_split_def Let_def)

lemma os_path_split_join_snd:
  assumes "os_sep \<notin> set pat"
  shows "snd (os_path_split (os_path_join X pat)) = pat"
proof -
  from assms have h: "\<not> (pat \<noteq> [] \<and> hd pat = os_sep)" using hd_in_set [of pat] by metis
  define pre where "pre = (if X = [] \<or> last X = os_sep then X else X @ [os_sep])"
  from h have j: "os_path_join X pat = pre @ pat"
    by (auto simp: os_path_join_def pre_def)
  have "pre = [] \<or> (\<exists>ys. pre = ys @ [os_sep])"
    unfolding pre_def by (cases X rule: rev_cases) auto
  then have "takeWhile (\<lambda>c. c \<noteq> os_sep) (rev pat @ rev pre) = rev pat"
  proof
    assume "pre = []"
    with assms show ?thesis by (auto simp: takeWhile_eq_all_conv)
  next
    assume "\<exists>ys. pre = ys @ [os_sep]"
    then obtain ys where "pre = ys @ [os_sep]" ..
    with assms takeWhile_name [of "rev pat" "rev ys"] show ?thesis by simp
  qed
  then show ?thesis
    unfolding os_path_split_snd j by simp
qed

lemma os_path_split_sep:
  assumes "X \<noteq> []" "last X \<noteq> os_sep" "os_sep \<notin> set pat"
  shows "os_path_split (X @ os_sep # pat) = (X, pat)"
proof -
  from assms(3) have t: "takeWhile (\<lambda>c. c \<noteq> os_sep) (rev pat @ os_sep # rev X) = rev pat"
    using takeWhile_name [of "rev pat" "rev X"] by simp
  from assms(1,2) have d: "dropWhile (\<lambda>c. c = os_sep) (rev X) = rev X"
    by (cases X rule: rev_cases) auto
  from assms(1,2) have n: "\<exists>c \<in> set X. c \<noteq> os_sep"
    using last_in_set [of X] by blast
  show ?thesis
    unfolding os_path_split_def Let_def using n
    by (simp add: t d)
qed

lemma recursive_dirname:
  "os_path_join directory_path ''**'' \<noteq> [] \<and> last (os_path_join directory_path ''**'') \<noteq> os_sep"
  by (simp add: os_path_join_def os_sep_def)

lemma os_path_split_pattern:
  assumes "pat \<noteq> []" "os_sep \<notin> set pat"
  shows "os_path_split (os_path_join (os_path_join directory_path ''**'') pat)
         = (os_path_join directory_path ''**'', pat)"
proof -
  let ?X = "os_path_join directory_path ''**''"
  from assms have "hd pat \<noteq> os_sep" using hd_in_set [of pat] by metis
  with assms recursive_dirname [of directory_path]
  have "os_path_join ?X pat = ?X @ os_sep # pat"
    by (simp add: os_path_join_def)
  with os_path_split_sep [of ?X pat] recursive_dirname [of directory_path] assms(2)
  show ?thesis by simp
qed

lemma glob_glob_pattern:
  assumes "pat \<noteq> []" "os_sep \<notin> set pat"
  shows "glob_glob fs (os_path_join (os_path_join directory_path ''**'') pat)
         = map (os_path_join (glob_head directory_path)) (rel_matches pat fs)"
proof -
  have r: "snd (os_path_split (os_path_join directory_path ''**'')) = ''**''"
    by (rule os_path_split_join_snd) (simp add: os_sep_def)
  obtain h t where ht: "os_path_split (os_path_join directory_path ''**'') = (h, t)"
    by (cases "os_path_split (os_path_join directory_path ''**'')")
  with r have "t = ''**''" and "glob_head directory_path = h"
    by (simp_all add: glob_head_def)
  with ht show ?thesis
    unfolding glob_glob_rel_matches os_path_split_pattern [OF assms] by simp
qed

lemma glob_glob_file_pattern:
  "glob_glob fs (file_pattern directory_path)
   = map (os_path_join (glob_head directory_path)) (rel_matches ''*.[jp][pn]g'' fs)"
  unfolding file_pattern_def by (rule glob_glob_pattern) (simp_all add: os_sep_def)

lemma glob_glob_jpeg_pattern:
  "glob_glob fs (jpeg_pattern directory_path)
   = map (os_path_join (glob_head directory_path)) (rel_matches ''*.jpeg'' fs)"
  unfolding jpeg_pattern_def by (rule glob_glob_pattern) (simp_all add: os_sep_def)

subsection \<open>The scan and the entries of the tree\<close>

lemma entries_below_Dir:
  "(cs, m) \<in> set (entries_below (Dir es)) \<longleftrightarrow>
   (\<exists>x n. (x, n) \<in> set es \<and>
      (cs = [x] \<and> m = n \<or> (\<exists>cs'. cs = x # cs' \<and> (cs', m) \<in> set (entries_below n))))"
  by (auto simp: image_iff) force

lemma entries_below_nonempty: "(cs, m) \<in> set (entries_below n) \<Longrightarrow> cs \<noteq> []"
  by (cases n) (auto simp: entries_below_Dir)

lemma rel_path_Cons: "cs \<noteq> [] \<Longrightarrow> rel_path (x # cs) = os_path_join x (rel_path cs)"
  by (cases cs) simp_all

lemma rel_matches_Dir_iff:
  "r \<in> set (rel_matches pattern (Dir es)) \<longleftrightarrow>
   r \<in> set (glob1 (Dir es) pattern)
   \<or> (\<exists>x n r'. (x, n) \<in> set es \<and> \<not> ishidden x \<and> isdir n
         \<and> r' \<in> set (rel_matches pattern n) \<and> r = os_path_join x r')"
  unfolding rel_matches_Dir by (auto split: if_splits)

lemma glob1_Dir_iff:
  "\<not> ishidden pattern \<Longrightarrow>
   x \<in> set (glob1 (Dir es) pattern) \<longleftrightarrow> x \<in> fst ` set es \<and> \<not> ishidden x \<and> fnmatch x pattern"
  by (auto simp: glob1_def)

lemma rel_matches_complete:
  "(cs, m) \<in> set (entries_below n) \<Longrightarrow> found_by pattern cs \<Longrightarrow> \<not> ishidden pattern \<Longrightarrow>
   rel_path cs \<in> set (rel_matches pattern n)"
proof (induction n arbitrary: cs)
  case File
  then show ?case by simp
next
  case (Dir es)
  from Dir.prems(1) obtain x n where xn: "(x, n) \<in> set es"
    and c: "cs = [x] \<and> m = n \<or> (\<exists>cs'. cs = x # cs' \<and> (cs', m) \<in> set (entries_below n))"
    unfolding entries_below_Dir by blast
  from c show ?case
  proof
    assume "cs = [x] \<and> m = n"
    with Dir.prems(2,3) xn have "x \<in> set (glob1 (Dir es) pattern)"
      by (force simp: glob1_Dir_iff found_by_def)
    with \<open>cs = [x] \<and> m = n\<close> show ?thesis
      unfolding rel_matches_Dir_iff by simp
  next
    assume "\<exists>cs'. cs = x # cs' \<and> (cs', m) \<in> set (entries_below n)"
    then obtain cs' where cs: "cs = x # cs'" and e: "(cs', m) \<in> set (entries_below n)" by blast
    from e have ne: "cs' \<noteq> []" by (rule entries_below_nonempty)
    from e have d: "isdir n" by (cases n) auto
    from Dir.prems(2) cs ne have v: "\<not> ishidden x" and f: "found_by pattern cs'"
      by (auto simp: found_by_def)
    from Dir.IH [of "(x, n)" n cs'] xn e f Dir.prems(3)
    have "rel_path cs' \<in> set (rel_matches pattern n)" by simp
    with xn v d cs ne show ?thesis
      unfolding rel_matches_Dir_iff by (auto simp: rel_path_Cons)
  qed
qed

lemma rel_matches_sound:
  "r \<in> set (rel_matches pattern n) \<Longrightarrow> \<not> ishidden pattern \<Longrightarrow>
   \<exists>cs m. (cs, m) \<in> set (entries_below n) \<and> found_by pattern cs \<and> r = rel_path cs"
proof (induction n arbitrary: r)
  case File
  then show ?case by simp
next
  case (Dir es)
  from Dir.prems(1) consider (here) "r \<in> set (glob1 (Dir es) pattern)"
    | (below) x n r' where "(x, n) \<in> set es" "\<not> ishidden x" "isdir n"
        "r' \<in> set (rel_matches pattern n)" "r = os_path_join x r'"
    unfolding rel_matches_Dir_iff by blast
  then show ?case
  proof cases
    case here
    with Dir.prems(2) obtain n where "(r, n) \<in> set es" "\<not> ishidden r" "fnmatch r pattern"
      by (auto simp: glob1_Dir_iff)
    then have "([r], n) \<in> set (entries_below (Dir es)) \<and> found_by pattern [r] \<and> r = rel_path [r]"
      unfolding entries_below_Dir by (auto simp: found_by_def)
    then show ?thesis by blast
  next
    case below
    from Dir.IH [of "(x, n)" n r'] below(1,4) Dir.prems(2)
    obtain cs m where e: "(cs, m) \<in> set (entries_below n)" and f: "found_by pattern cs"
      and r': "r' = rel_path cs" by auto
    from e have ne: "cs \<noteq> []" by (rule entries_below_nonempty)
    from below(1) e have "(x # cs, m) \<in> set (entries_below (Dir es))"
      unfolding entries_below_Dir by blast
    moreover from f below(2) ne have "found_by pattern (x # cs)"
      by (simp add: found_by_def)
    moreover from below(5) r' ne have "r = rel_path (x # cs)"
      by (simp add: rel_path_Cons)
    ultimately show ?thesis by blast
  qed
qed

lemma path_of_rel_path:
  "cs \<noteq> [] \<Longrightarrow> path_of directory_path cs = os_path_join (glob_head directory_path) (rel_path cs)"
proof -
  have "cs \<noteq> [] \<Longrightarrow> foldl os_path_join h cs = os_path_join h (rel_path cs)" for h
  proof (induction cs arbitrary: h)
    case Nil
    then show ?case by simp
  next
    case (Cons x cs)
    show ?case
    proof (cases "cs = []")
      case True
      then show ?thesis by simp
    next
      case False
      with Cons.IH [of "os_path_join h x"] show ?thesis
        by (simp add: rel_path_Cons os_path_join_assoc)
    qed
  qed
  then show "cs \<noteq> [] \<Longrightarrow> ?thesis" by (simp add: path_of_def)
qed

lemma glob_glob_entries:
  assumes "pat \<noteq> []" "os_sep \<notin> set pat" "\<not> ishidden pat"
  shows "set (glob_glob fs (os_path_join (os_path_join directory_path ''**'') pat))
         = {path_of directory_path cs | cs m. (cs, m) \<in> set (entries_below fs) \<and> found_by pat cs}"
proof (rule set_eqI, rule iffI)
  fix p assume "p \<in> set (glob_glob fs (os_path_join (os_path_join directory_path ''**'') pat))"
  then obtain r where r: "r \<in> set (rel_matches pat fs)"
    and p: "p = os_path_join (glob_head directory_path) r"
    unfolding glob_glob_pattern [OF assms(1,2)] by auto
  from rel_matches_sound [OF r assms(3)] obtain cs m
    where e: "(cs, m) \<in> set (entries_below fs)" and f: "found_by pat cs" and rr: "r = rel_path cs"
    by blast
  from e have "cs \<noteq> []" by (rule entries_below_nonempty)
  with p rr have "p = path_of directory_path cs" by (simp add: path_of_rel_path)
  with e f show "p \<in> {path_of directory_path cs | cs m. (cs, m) \<in> set (entries_below fs) \<and> found_by pat cs}"
    by blast
next
  fix p assume "p \<in> {path_of directory_path cs | cs m. (cs, m) \<in> set (entries_below fs) \<and> found_by pat cs}"
  then obtain cs m where e: "(cs, m) \<in> set (entries_below fs)" and f: "found_by pat cs"
    and p: "p = path_of directory_path cs" by blast
  from e have "cs \<noteq> []" by (rule entries_below_nonempty)
  with p have "p = os_path_join (glob_head directory_path) (rel_path cs)"
    by (simp add: path_of_rel_path)
  with rel_matches_complete [OF e f assms(3)]
  show "p \<in> set (glob_glob fs (os_path_join (os_path_join directory_path ''**'') pat))"
    unfolding glob_glob_pattern [OF assms(1,2)] by simp
qed

lemma rel_matches_suffix:
  "r \<in> set (rel_matches pattern n) \<Longrightarrow> \<exists>pre x. r = pre @ x \<and> fnmatch x pattern"
proof -
  assume "r \<in> set (rel_matches pattern n)"
  then obtain rel m x where "x \<in> set (glob1 m pattern)" "r = os_path_join rel x"
    unfolding rel_matches_def by auto
  with os_path_join_suffix [of rel x] glob1_fnmatch [of x m pattern] show ?thesis by metis
qed

lemma glob_glob_suffix:
  assumes "pat \<noteq> []" "os_sep \<notin> set pat"
    and "p \<in> set (glob_glob fs (os_path_join (os_path_join directory_path ''**'') pat))"
  shows "\<exists>a x. p = a @ x \<and> fnmatch x pat"
proof -
  from assms(3) obtain r where r: "r \<in> set (rel_matches pat fs)"
    and p: "p = os_path_join (glob_head directory_path) r"
    unfolding glob_glob_pattern [OF assms(1,2)] by auto
  from rel_matches_suffix [OF r] obtain pre x where x: "r = pre @ x" "fnmatch x pat" by blast
  from os_path_join_suffix [of "glob_head directory_path" r] obtain q
    where "os_path_join (glob_head directory_path) r = q @ r" by blast
  with p x have "p = (q @ pre) @ x \<and> fnmatch x pat" by simp
  then show ?thesis by blast
qed

lemma scans_disjoint:
  "set (glob_glob fs (file_pattern directory_path)) \<inter> set (glob_glob fs (jpeg_pattern directory_path)) = {}"
proof (rule ccontr)
  assume "\<not> ?thesis"
  then obtain p where 1: "p \<in> set (glob_glob fs (file_pattern directory_path))"
    and 2: "p \<in> set (glob_glob fs (jpeg_pattern directory_path))" by blast
  have "\<exists>a x. p = a @ x \<and> fnmatch x ''*.[jp][pn]g''"
    by (rule glob_glob_suffix [of _ _ fs directory_path])
       (use 1 in \<open>simp_all add: os_sep_def file_pattern_def\<close>)
  then obtain a x where a: "p = a @ x" "fnmatch x ''*.[jp][pn]g''" by blast
  have "\<exists>b y. p = b @ y \<and> fnmatch y ''*.jpeg''"
    by (rule glob_glob_suffix [of _ _ fs directory_path])
       (use 2 in \<open>simp_all add: os_sep_def jpeg_pattern_def\<close>)
  then obtain b y where b: "p = b @ y" "fnmatch y ''*.jpeg''" by blast
  from patterns_disjoint [OF a b] show False .
qed

lemma set_scanned_paths:
  "set (scanned_paths fs directory_path)
   = set (glob_glob fs (file_pattern directory_path)) \<union> set (glob_glob fs (jpeg_pattern directory_path))"
  by (simp add: scanned_paths_def)

lemma distinct_scanned_paths: "wf_node fs \<Longrightarrow> distinct (scanned_paths fs directory_path)"
  using scans_disjoint [of fs directory_path]
  by (simp add: scanned_paths_def distinct_glob_glob)

lemma distinct_image_paths: "wf_node fs \<Longrightarrow> distinct (image_paths fs directory_path)"
  by (simp add: image_paths_def distinct_scanned_paths)

lemma sorted_image_paths: "sorted (image_paths fs directory_path)"
  by (simp add: image_paths_def scanned_paths_def sorted_wrt_filter)

lemma union_of_images:
  "{f cs | cs m. (cs, m) \<in> E \<and> P cs} \<union> {f cs | cs m. (cs, m) \<in> E \<and> Q cs}
   = {f cs | cs m. (cs, m) \<in> E \<and> (P cs \<or> Q cs)}"
  by blast

lemma scan_entries:
  "set (glob_glob fs (file_pattern directory_path)) \<union> set (glob_glob fs (jpeg_pattern directory_path))
   = {path_of directory_path cs | cs m.
        (cs, m) \<in> set (entries_below fs) \<and> (found_by ''*.[jp][pn]g'' cs \<or> found_by ''*.jpeg'' cs)}"
proof -
  have 1: "set (glob_glob fs (file_pattern directory_path))
           = {path_of directory_path cs | cs m. (cs, m) \<in> set (entries_below fs) \<and> found_by ''*.[jp][pn]g'' cs}"
    unfolding file_pattern_def by (rule glob_glob_entries) (simp_all add: os_sep_def ishidden_def)
  have 2: "set (glob_glob fs (jpeg_pattern directory_path))
           = {path_of directory_path cs | cs m. (cs, m) \<in> set (entries_below fs) \<and> found_by ''*.jpeg'' cs}"
    unfolding jpeg_pattern_def by (rule glob_glob_entries) (simp_all add: os_sep_def ishidden_def)
  show ?thesis
    unfolding 1 2 by (rule union_of_images)
qed

subsection \<open>Segments and depth\<close>






subsection \<open>Extensions\<close>

lemma endswith_iff: "endswith s t \<longleftrightarrow> (\<exists>pre. s = pre @ t)"
proof
  assume "endswith s t"
  then have "s = take (length s - length t) s @ t"
    unfolding endswith_def by (metis append_take_drop_id)
  then show "\<exists>pre. s = pre @ t" ..
next
  assume "\<exists>pre. s = pre @ t"
  then show "endswith s t" by (auto simp: endswith_def)
qed

lemma fnmatch_file_pattern_endswith:
  "fnmatch name ''*.[jp][pn]g''
   \<longleftrightarrow> endswith name ''.jpg'' \<or> endswith name ''.jng'' \<or> endswith name ''.ppg'' \<or> endswith name ''.png''"
  unfolding fnmatch_file_pattern endswith_iff by blast

lemma fnmatch_jpeg_pattern_endswith:
  "fnmatch name ''*.jpeg'' \<longleftrightarrow> endswith name ''.jpeg''"
  unfolding fnmatch_jpeg_pattern endswith_iff ..

lemma endswith_append: "endswith x t \<Longrightarrow> endswith (a @ x) t"
  unfolding endswith_iff by (metis append.assoc)

lemma image_paths_iff:
  "p \<in> set (image_paths fs directory_path)
   \<longleftrightarrow> depth_of directory_path p \<le> 4
       \<and> (\<exists>cs m. (cs, m) \<in> set (entries_below fs)
             \<and> (found_by ''*.[jp][pn]g'' cs \<or> found_by ''*.jpeg'' cs)
             \<and> p = path_of directory_path cs)"
proof -
  have "p \<in> set (image_paths fs directory_path)
        \<longleftrightarrow> depth_of directory_path p \<le> 4
            \<and> p \<in> set (glob_glob fs (file_pattern directory_path))
                    \<union> set (glob_glob fs (jpeg_pattern directory_path))"
    unfolding image_paths_def set_filter set_scanned_paths by blast
  then show ?thesis
    unfolding scan_entries by blast
qed

subsection \<open>The discovered paths\<close>




text \<open>
  Claim C4 says that a file is discovered exactly when its name ends in
  \<open>.jpg\<close>, \<open>.jpeg\<close> or \<open>.png\<close>. In the tree below, an image with a hidden name and
  an image six levels down are not discovered, and a file \<open>x.jng\<close> is: the
  pattern \<open>*.[jp][pn]g\<close> also matches \<open>.jng\<close> and \<open>.ppg\<close>.
\<close>

theorem discovery_takes_other_extensions:
  "([''x.jng''], File) \<in> set (entries_below mixed_tree)
   \<and> \<not> image_ext ''x.jng''
   \<and> path_of ''root'' [''x.jng''] \<in> set (image_paths mixed_tree ''root'')
   \<and> ([''.hidden.png''], File) \<in> set (entries_below mixed_tree)
   \<and> image_ext ''.hidden.png''
   \<and> path_of ''root'' [''.hidden.png''] \<notin> set (image_paths mixed_tree ''root'')
   \<and> ([''a'', ''b'', ''c'', ''d'', ''e'', ''deep.png''], File) \<in> set (entries_below mixed_tree)
   \<and> image_ext ''deep.png''
   \<and> path_of ''root'' [''a'', ''b'', ''c'', ''d'', ''e'', ''deep.png'']
       \<notin> set (image_paths mixed_tree ''root'')
   \<and> image_paths mixed_tree ''root'' = [''root/x.jng'']"
  by code_simp

text \<open>
  Claim C4, amended. For a root without pattern characters: an entry whose name
  ends in \<open>.jpg\<close>, \<open>.jpeg\<close> or \<open>.png\<close> is discovered when no name on its way is
  hidden and its path has at most 4 segments more than the root. Every
  discovered path has at most 4 segments more than the root, names an entry
  reached through names that are not hidden, and ends in one of \<open>.jpg\<close>,
  \<open>.jpeg\<close>, \<open>.png\<close>, \<open>.jng\<close>, \<open>.ppg\<close>.
\<close>

theorem discovery_by_extension:
  assumes "\<not> has_magic directory_path"
  shows "((cs, n) \<in> set (entries_below fs) \<and> (\<forall>c \<in> set cs. \<not> ishidden c) \<and> image_ext (last cs)
      \<and> depth_of directory_path (path_of directory_path cs) \<le> 4
     \<longrightarrow> path_of directory_path cs \<in> set (image_paths fs directory_path))
   \<and> (p \<in> set (image_paths fs directory_path)
     \<longrightarrow> depth_of directory_path p \<le> 4
         \<and> (endswith p ''.jpg'' \<or> endswith p ''.jpeg'' \<or> endswith p ''.png''
              \<or> endswith p ''.jng'' \<or> endswith p ''.ppg'')
         \<and> (\<exists>cs' n'. (cs', n') \<in> set (entries_below fs) \<and> (\<forall>c \<in> set cs'. \<not> ishidden c)
               \<and> p = path_of directory_path cs'))"
proof (intro conjI impI)
  assume a: "(cs, n) \<in> set (entries_below fs) \<and> (\<forall>c \<in> set cs. \<not> ishidden c) \<and> image_ext (last cs)
             \<and> depth_of directory_path (path_of directory_path cs) \<le> 4"
  then have "fnmatch (last cs) ''*.[jp][pn]g'' \<or> fnmatch (last cs) ''*.jpeg''"
    unfolding fnmatch_file_pattern_endswith fnmatch_jpeg_pattern_endswith image_ext_def by blast
  with a have "found_by ''*.[jp][pn]g'' cs \<or> found_by ''*.jpeg'' cs"
    unfolding found_by_def by blast
  with a show "path_of directory_path cs \<in> set (image_paths fs directory_path)"
    unfolding image_paths_iff by blast
next
  assume p: "p \<in> set (image_paths fs directory_path)"
  then show "depth_of directory_path p \<le> 4"
    unfolding image_paths_iff by blast
  from p obtain cs' n' where e: "(cs', n') \<in> set (entries_below fs)"
    and f: "found_by ''*.[jp][pn]g'' cs' \<or> found_by ''*.jpeg'' cs'"
    and pp: "p = path_of directory_path cs'"
    unfolding image_paths_iff by blast
  from f have v: "\<forall>c \<in> set cs'. \<not> ishidden c"
    unfolding found_by_def by blast
  with e pp show "\<exists>cs' n'. (cs', n') \<in> set (entries_below fs) \<and> (\<forall>c \<in> set cs'. \<not> ishidden c)
                    \<and> p = path_of directory_path cs'"
    by blast
  from e have ne: "cs' \<noteq> []" by (rule entries_below_nonempty)
  with pp have "p = os_path_join (glob_head directory_path) (rel_path cs')"
    by (simp add: path_of_rel_path)
  moreover have "\<exists>q. rel_path cs' = q @ last cs'"
    using ne
  proof (induction cs')
    case Nil
    then show ?case by simp
  next
    case (Cons x xs)
    show ?case
    proof (cases "xs = []")
      case True
      then show ?thesis by simp
    next
      case False
      with Cons.IH obtain q where q: "rel_path xs = q @ last xs" by blast
      from os_path_join_suffix [of x "rel_path xs"] obtain q'
        where "os_path_join x (rel_path xs) = q' @ rel_path xs" by blast
      with q False have "rel_path (x # xs) = (q' @ q) @ last (x # xs)"
        by (simp add: rel_path_Cons)
      then show ?thesis by blast
    qed
  qed
  moreover from os_path_join_suffix [of "glob_head directory_path" "rel_path cs'"]
  obtain h where "os_path_join (glob_head directory_path) (rel_path cs') = h @ rel_path cs'" by blast
  ultimately obtain q where pq: "p = q @ last cs'" by (metis append.assoc)
  from f have "fnmatch (last cs') ''*.[jp][pn]g'' \<or> fnmatch (last cs') ''*.jpeg''"
    unfolding found_by_def by blast
  then have "endswith (last cs') ''.jpg'' \<or> endswith (last cs') ''.jpeg'' \<or> endswith (last cs') ''.png''
             \<or> endswith (last cs') ''.jng'' \<or> endswith (last cs') ''.ppg''"
    unfolding fnmatch_file_pattern_endswith fnmatch_jpeg_pattern_endswith by blast
  then show "endswith p ''.jpg'' \<or> endswith p ''.jpeg'' \<or> endswith p ''.png''
             \<or> endswith p ''.jng'' \<or> endswith p ''.ppg''"
    unfolding pq using endswith_append [of "last cs'" _ q] by blast
qed

theorem discovery_by_extension_witness:
  "\<not> has_magic ''root''
   \<and> ([''a'', ''b'', ''img2.jpg''], File) \<in> set (entries_below spec_tree)
   \<and> \<not> ishidden ''a'' \<and> \<not> ishidden ''b'' \<and> \<not> ishidden ''img2.jpg''
   \<and> image_ext (last [''a'', ''b'', ''img2.jpg''])
   \<and> depth_of ''root'' (path_of ''root'' [''a'', ''b'', ''img2.jpg'']) \<le> 4
   \<and> path_of ''root'' [''a'', ''b'', ''img2.jpg''] \<in> set (image_paths spec_tree ''root'')
   \<and> ''root/a/img1.png'' \<in> set (image_paths spec_tree ''root'')
   \<and> depth_of ''root'' ''root/a/img1.png'' \<le> 4
   \<and> endswith ''root/a/img1.png'' ''.png''"
proof -
  have h1: "([''a'', ''b'', ''img2.jpg''], File) \<in> set (entries_below spec_tree)"
    by code_simp
  have h2: "\<not> ishidden ''a'' \<and> \<not> ishidden ''b'' \<and> \<not> ishidden ''img2.jpg''"
    by (simp add: ishidden_def)
  then have h2': "\<forall>c \<in> set [''a'', ''b'', ''img2.jpg'']. \<not> ishidden c"
    by simp
  have h3: "image_ext (last [''a'', ''b'', ''img2.jpg''])"
    by code_simp
  have h4: "depth_of ''root'' (path_of ''root'' [''a'', ''b'', ''img2.jpg'']) \<le> 4"
    by code_simp
  have m: "''root/a/img1.png'' \<in> set (image_paths spec_tree ''root'')"
    by code_simp
  have e: "endswith ''root/a/img1.png'' ''.png''"
    by code_simp
  have nm: "\<not> has_magic ''root''"
    by (simp add: has_magic_def)
  note t = discovery_by_extension
             [OF nm, where cs = "[''a'', ''b'', ''img2.jpg'']" and n = File and fs = spec_tree
                       and p = "''root/a/img1.png''"]
  from t h1 h2' h3 h4
  have 1: "path_of ''root'' [''a'', ''b'', ''img2.jpg''] \<in> set (image_paths spec_tree ''root'')"
    by blast
  from t m have 2: "depth_of ''root'' ''root/a/img1.png'' \<le> 4"
    by blast
  from nm h1 h2 h3 h4 1 m 2 e show ?thesis by blast
qed

section \<open>The returned mapping\<close>

lemma dict_set_fresh: "k \<notin> fst ` set kvs \<Longrightarrow> dict_set kvs k v = kvs @ [(k, v)]"
  by (induction kvs) auto

lemma batch_loop_map_filter:
  "distinct ps \<Longrightarrow> set ps \<inter> fst ` set results = {} \<Longrightarrow>
   fst (batch_loop m f r ps (results, calls, out)) = results @ List.map_filter (evaluated m f r) ps"
proof (induction ps arbitrary: results calls out)
  case Nil
  show ?case by (simp add: List.map_filter_simps)
next
  case (Cons p ps)
  obtain x cs where pi: "process_image m p f (Some r) = (x, cs)"
    by (cases "process_image m p f (Some r)")
  from Cons.prems have d: "distinct ps" and np: "p \<notin> set ps" and fr: "p \<notin> fst ` set results"
    and dj: "set ps \<inter> fst ` set results = {}" by auto
  show ?case
  proof (cases x)
    case (Inl e)
    with pi have "evaluated m f r p = None" by (simp add: evaluated_def)
    with pi Inl Cons.IH [OF d dj, of "calls @ cs" out] show ?thesis
      by (simp add: List.map_filter_simps)
  next
    case (Inr v)
    show ?thesis
    proof (cases v)
      case None
      with pi Inr have "evaluated m f r p = None" by (simp add: evaluated_def)
      with pi Inr None Cons.IH [OF d dj, of "calls @ cs" out] show ?thesis
        by (simp add: List.map_filter_simps)
    next
      case (Some y)
      with pi Inr have ev: "evaluated m f r p = Some (p, y)" by (simp add: evaluated_def)
      from fr have ds: "dict_set results p y = results @ [(p, y)]" by (rule dict_set_fresh)
      from dj np have dj': "set ps \<inter> fst ` set (results @ [(p, y)]) = {}" by auto
      from Cons.IH [OF d dj', of "calls @ cs" "out @ [MTF_value p f (100 * y)]"] pi Inr Some ds ev
      show ?thesis by (simp add: List.map_filter_simps)
    qed
  qed
qed

lemma evaluated_key: "evaluated m f r p = Some (k, v) \<Longrightarrow> k = p"
  by (auto simp: evaluated_def split: sum.splits option.splits)

lemma map_fst_evaluated:
  "map fst (List.map_filter (evaluated m f r) ps) = filter (\<lambda>p. evaluated m f r p \<noteq> None) ps"
  by (induction ps) (auto simp: List.map_filter_simps dest: evaluated_key split: option.splits)

lemma set_map_filter_evaluated:
  "(p, v) \<in> set (List.map_filter (evaluated m f r) ps)
   \<longleftrightarrow> p \<in> set ps \<and> fst (process_image m p f (Some r)) = Inr (Some v)"
proof (induction ps)
  case Nil
  show ?case by (simp add: List.map_filter_simps)
next
  case (Cons q ps)
  show ?case
  proof (cases "evaluated m f r q")
    case None
    then have "fst (process_image m q f (Some r)) \<noteq> Inr (Some v)"
      by (auto simp: evaluated_def)
    with None Cons.IH show ?thesis by (auto simp: List.map_filter_simps)
  next
    case (Some kv)
    then have "fst (process_image m q f (Some r)) = Inr (Some (snd kv))" and "fst kv = q"
      by (auto simp: evaluated_def split: sum.splits option.splits)
    with Some Cons.IH show ?thesis by (cases kv) (auto simp: List.map_filter_simps)
  qed
qed

text \<open>
  Claim C1. When \<open>batch_process\<close> returns, the dict holds an entry exactly for
  the discovered paths on which \<open>process_image\<close> gave a value, each under its
  path with that value; the paths that failed are absent. The keys stand in the
  order of the discovery, which is the sorted order of the paths, and no key
  appears twice.
\<close>

theorem batch_process_results:
  assumes "wf_node fs"
    and "batch_process m fs evs directory_path frequency = Some (Inr results, calls, out)"
  shows "\<exists>roi' calls' out'.
           get_roi m evs (hd (image_paths fs directory_path)) = Some (Inr roi', calls', out')
           \<and> results = List.map_filter (evaluated m frequency roi') (image_paths fs directory_path)
           \<and> (\<forall>path mtf_value.
                 (path, mtf_value) \<in> set results
                 \<longleftrightarrow> path \<in> set (image_paths fs directory_path)
                     \<and> fst (process_image m path frequency (Some roi')) = Inr (Some mtf_value))
           \<and> map fst results
               = filter (\<lambda>path. evaluated m frequency roi' path \<noteq> None) (image_paths fs directory_path)
           \<and> distinct (map fst results)
           \<and> sorted (map fst results)"
proof -
  let ?ps = "image_paths fs directory_path"
  from assms(2) have ne: "?ps \<noteq> []"
    by (auto simp: batch_process_def Let_def)
  with assms(2) obtain r c o1 where g: "get_roi m evs (hd ?ps) = Some (Inr r, c, o1)"
    and res: "results = fst (batch_loop m frequency r ?ps ([], c, o1))"
    by (auto simp: batch_process_def Let_def split: option.splits sum.splits prod.splits)
  have d: "distinct ?ps" using assms(1) by (rule distinct_image_paths)
  have s: "sorted ?ps" by (rule sorted_image_paths)
  from batch_loop_map_filter [OF d, of "[]" m frequency r c o1] res
  have 1: "results = List.map_filter (evaluated m frequency r) ?ps" by simp
  have 2: "(path, v) \<in> set results
           \<longleftrightarrow> path \<in> set ?ps \<and> fst (process_image m path frequency (Some r)) = Inr (Some v)"
    for path v
    unfolding 1 by (rule set_map_filter_evaluated)
  have 3: "map fst results = filter (\<lambda>path. evaluated m frequency r path \<noteq> None) ?ps"
    unfolding 1 by (rule map_fst_evaluated)
  have 4: "distinct (map fst results)" unfolding 3 using d by simp
  have 5: "sorted (map fst results)" unfolding 3 using s by (simp add: sorted_wrt_filter)
  from g 1 2 3 4 5 show ?thesis by blast
qed

theorem batch_process_results_witness:
  "wf_node five_tree
   \<and> map_option fst (batch_process five_mtf five_tree [Drag (1, 1) (7 / 2, 7 / 2), Click_Confirm] ''root'' (1 / 2))
     = Some (Inr [(''root/img1.png'', 1 / 2), (''root/img3.png'', 1 / 2), (''root/img5.png'', 1 / 2)])
   \<and> fst (process_image five_mtf ''root/img2.png'' (1 / 2) (Some (1, 1, 3, 3))) = Inr None
   \<and> fst (process_image five_mtf ''root/img4.png'' (1 / 2) (Some (1, 1, 3, 3))) = Inr None
   \<and> distinct (map fst [(''root/img1.png'', 1 / 2 :: rat), (''root/img3.png'', 1 / 2), (''root/img5.png'', 1 / 2)])
   \<and> sorted (map fst [(''root/img1.png'', 1 / 2 :: rat), (''root/img3.png'', 1 / 2), (''root/img5.png'', 1 / 2)])"
proof -
  let ?results = "[(''root/img1.png'', 1 / 2 :: rat), (''root/img3.png'', 1 / 2), (''root/img5.png'', 1 / 2)]"
  have wf: "wf_node five_tree"
    by (simp add: five_tree_def os_sep_def)
  have mo: "map_option fst (batch_process five_mtf five_tree [Drag (1, 1) (7 / 2, 7 / 2), Click_Confirm] ''root'' (1 / 2))
            = Some (Inr ?results)"
    by code_simp
  then obtain z
    where z: "batch_process five_mtf five_tree [Drag (1, 1) (7 / 2, 7 / 2), Click_Confirm] ''root'' (1 / 2) = Some z"
      and fz: "fst z = Inr ?results"
    by (cases "batch_process five_mtf five_tree [Drag (1, 1) (7 / 2, 7 / 2), Click_Confirm] ''root'' (1 / 2)") auto
  obtain calls out where "z = (Inr ?results, calls, out)"
    using fz by (cases z) auto
  with z
  have b: "batch_process five_mtf five_tree [Drag (1, 1) (7 / 2, 7 / 2), Click_Confirm] ''root'' (1 / 2)
           = Some (Inr ?results, calls, out)"
    by simp
  have p2: "fst (process_image five_mtf ''root/img2.png'' (1 / 2) (Some (1, 1, 3, 3))) = Inr None"
    by code_simp
  have p4: "fst (process_image five_mtf ''root/img4.png'' (1 / 2) (Some (1, 1, 3, 3))) = Inr None"
    by code_simp
  from batch_process_results [OF wf b]
  have "distinct (map fst ?results)" and "sorted (map fst ?results)"
    by blast+
  with wf mo p2 p4 show ?thesis by blast
qed

end
